theory Spec2Isabelle
  imports Main
begin

section \<open>Data model\<close>

text \<open>
  A shallow embedding of the class \<open>CSP\<close> of \<open>csp.py\<close>.

  Python lists are mutable objects, and the solver mutates them in place while other
  names still refer to them (\<open>assignment[i].remove(x)\<close> inside \<open>for x in assignment[i]\<close>,
  \<open>values = assignment[variable]\<close> in \<open>backtrack\<close>). The lists of domain values
  therefore live in an explicit store: a \<open>heap\<close> is the list of all list objects
  allocated so far, a reference \<open>ref\<close> is an index into it, and allocating an object
  appends it. Python never holds a reference to an object that was not allocated, so the
  references of every dictionary below are smaller than the length of the heap.

  A \<open>dict\<close> is an association list in insertion order with distinct keys, as Python
  dictionaries iterate. Variable names are strings; domain values are an arbitrary type
  \<open>'v\<close> compared with \<open>=\<close>, as Python compares them with \<open>==\<close>. The lists of legal
  pairs in \<open>self.constraints\<close> are built once by \<open>add_constraint_one_way\<close> and only read
  by the search, so they are stored by value.

  The two exceptions the methods can raise are values: \<open>KeyError\<close> for a missing
  dictionary key and \<open>ValueError\<close> for \<open>list.remove\<close> of an absent element.
  The module-level counters \<open>count_backtrack\<close> and \<open>count_failures\<close> are diagnostics
  that no result depends on; they are left out.
\<close>

type_synonym name = string
type_synonym ref = nat
type_synonym 'v heap = "'v list list"
type_synonym 'a dict = "(name \<times> 'a) list"
type_synonym arc = "name \<times> name"

datatype error = KeyError | ValueError

record 'v csp =
  variables :: "name list"
  domains :: "ref dict"
  constraints :: "('v \<times> 'v) list dict dict"

text \<open>\<open>d[k]\<close> and \<open>d[k] = v\<close>: a key that is already present keeps its position.\<close>

definition getitem :: "'a dict \<Rightarrow> name \<Rightarrow> error + 'a" where
  "getitem d k = (case map_of d k of None \<Rightarrow> Inl KeyError | Some v \<Rightarrow> Inr v)"

fun setitem :: "name \<Rightarrow> 'a \<Rightarrow> 'a dict \<Rightarrow> 'a dict" where
  "setitem k v [] = [(k, v)]"
| "setitem k v ((k', v') # d) = (if k' = k then (k, v) # d else (k', v') # setitem k v d)"

text \<open>The contents of a dictionary of references: each key with the list it refers to.\<close>

definition contents :: "'v heap \<Rightarrow> ref dict \<Rightarrow> 'v list dict" where
  "contents h d = map (\<lambda>(k, r). (k, h ! r)) d"

section \<open>Construction\<close>

text \<open>\<open>CSP.__init__\<close>.\<close>

definition new_csp :: "'v csp" where
  "new_csp = \<lparr>variables = [], domains = [], constraints = []\<rparr>"

text \<open>
  \<open>add_variable\<close>: \<open>list(domain)\<close> allocates a new list object. The method has no
  check and no \<open>raise\<close>.
\<close>

definition add_variable :: "name \<Rightarrow> 'v list \<Rightarrow> 'v csp \<times> 'v heap \<Rightarrow> 'v csp \<times> 'v heap" where
  "add_variable nm domain s =
     (case s of (c, h) \<Rightarrow>
        (c\<lparr>variables := variables c @ [nm],
           domains := setitem nm (length h) (domains c),
           constraints := setitem nm [] (constraints c)\<rparr>,
         h @ [domain]))"

text \<open>\<open>itertools.product(a, b)\<close>, in the order it yields the pairs.\<close>

definition get_all_possible_pairs :: "'a list \<Rightarrow> 'b list \<Rightarrow> ('a \<times> 'b) list" where
  "get_all_possible_pairs a b = List.product a b"

definition get_all_arcs :: "'v csp \<Rightarrow> arc list" where
  "get_all_arcs c = concat (map (\<lambda>(i, m). map (\<lambda>(j, ps). (i, j)) m) (constraints c))"

text \<open>\<open>[(i, var) for i in self.constraints[var]]\<close>.\<close>

definition get_all_neighboring_arcs :: "'v csp \<Rightarrow> name \<Rightarrow> error + arc list" where
  "get_all_neighboring_arcs c var =
     (case getitem (constraints c) var of
        Inl e \<Rightarrow> Inl e
      | Inr m \<Rightarrow> Inr (map (\<lambda>(i, ps). (i, var)) m))"

definition add_constraint_one_way ::
  "name \<Rightarrow> name \<Rightarrow> ('v \<Rightarrow> 'v \<Rightarrow> bool) \<Rightarrow> 'v csp \<times> 'v heap \<Rightarrow> error + 'v csp \<times> 'v heap" where
  "add_constraint_one_way i j filter_function s =
     (case s of (c, h) \<Rightarrow>
        (case getitem (constraints c) i of
           Inl e \<Rightarrow> Inl e
         | Inr m \<Rightarrow>
             (case (case map_of m j of
                      Some ps \<Rightarrow> Inr ps
                    | None \<Rightarrow>
                        (case getitem (domains c) i of
                           Inl e \<Rightarrow> Inl e
                         | Inr ri \<Rightarrow>
                             (case getitem (domains c) j of
                                Inl e \<Rightarrow> Inl e
                              | Inr rj \<Rightarrow> Inr (get_all_possible_pairs (h ! ri) (h ! rj))))) of
                Inl e \<Rightarrow> Inl e
              | Inr ps \<Rightarrow>
                  Inr (c\<lparr>constraints :=
                           setitem i (setitem j (filter (\<lambda>(x, y). filter_function x y) ps) m)
                             (constraints c)\<rparr>,
                       h))))"

text \<open>The loop of \<open>add_all_different_constraint\<close> over the pairs of variables.\<close>

fun add_constraints ::
  "arc list \<Rightarrow> ('v \<Rightarrow> 'v \<Rightarrow> bool) \<Rightarrow> 'v csp \<times> 'v heap \<Rightarrow> error + 'v csp \<times> 'v heap" where
  "add_constraints [] f s = Inr s"
| "add_constraints ((i, j) # ps) f s =
     (if i \<noteq> j then
        (case add_constraint_one_way i j f s of
           Inl e \<Rightarrow> Inl e
         | Inr s' \<Rightarrow> add_constraints ps f s')
      else add_constraints ps f s)"

definition add_all_different_constraint ::
  "name list \<Rightarrow> 'v csp \<times> 'v heap \<Rightarrow> error + 'v csp \<times> 'v heap" where
  "add_all_different_constraint vs s =
     add_constraints (get_all_possible_pairs vs vs) (\<lambda>x y. x \<noteq> y) s"

section \<open>AC-3\<close>

text \<open>
  The inner loop of \<open>revise\<close>, \<open>for y in assignment[j]\<close>: \<open>self.constraints[i][j]\<close> is
  looked up at every \<open>y\<close>, so a missing constraint raises only when there is a \<open>y\<close>.
\<close>

fun satisfied_loop :: "'v csp \<Rightarrow> name \<Rightarrow> name \<Rightarrow> 'v \<Rightarrow> 'v list \<Rightarrow> error + bool" where
  "satisfied_loop c i j x [] = Inr False"
| "satisfied_loop c i j x (y # ys) =
     (case getitem (constraints c) i of
        Inl e \<Rightarrow> Inl e
      | Inr m \<Rightarrow>
          (case getitem m j of
             Inl e \<Rightarrow> Inl e
           | Inr ps \<Rightarrow> if (x, y) \<in> set ps then Inr True else satisfied_loop c i j x ys))"

text \<open>
  The outer loop of \<open>revise\<close>, \<open>for x in assignment[i]\<close>, over the list object \<open>ri\<close>.
  Python's list iterator keeps an index \<open>idx\<close> into the object and reads its current
  length and its current element at every step; \<open>assignment[i].remove(x)\<close> mutates that
  same object (it deletes the first element equal to \<open>x\<close>), and the index still advances.
\<close>

function revise_loop ::
  "'v csp \<Rightarrow> ref dict \<Rightarrow> name \<Rightarrow> name \<Rightarrow> ref \<Rightarrow> nat \<Rightarrow> bool \<Rightarrow> 'v heap \<Rightarrow> error + bool \<times> 'v heap" where
  "revise_loop c asg i j ri idx revised h =
     (if idx < length (h ! ri) then
        (case getitem asg j of
           Inl e \<Rightarrow> Inl e
         | Inr rj \<Rightarrow>
             (case satisfied_loop c i j (h ! ri ! idx) (h ! rj) of
                Inl e \<Rightarrow> Inl e
              | Inr satisfied \<Rightarrow>
                  if satisfied then revise_loop c asg i j ri (idx + 1) revised h
                  else revise_loop c asg i j ri (idx + 1) True
                         (h[ri := remove1 (h ! ri ! idx) (h ! ri)])))
      else Inr (revised, h))"
  by pat_completeness auto
termination
proof (relation "measure (\<lambda>(c, asg, i, j, ri, idx, revised, h). length (h ! ri) - idx)")
  show "wf (measure (\<lambda>(c, asg, i, j, ri, idx, revised, h). length (h ! ri) - idx))"
    by simp
next
  fix c :: "'v csp" and asg :: "ref dict" and i j :: name and ri idx :: nat
    and revised :: bool and h :: "'v heap"
  assume "idx < length (h ! ri)"
  then show "((c, asg, i, j, ri, idx + 1, revised, h), (c, asg, i, j, ri, idx, revised, h))
      \<in> measure (\<lambda>(c, asg, i, j, ri, idx, revised, h). length (h ! ri) - idx)"
    by simp
next
  fix c :: "'v csp" and asg :: "ref dict" and i j :: name and ri idx :: nat
    and revised :: bool and h :: "'v heap"
  assume a: "idx < length (h ! ri)"
  show "((c, asg, i, j, ri, idx + 1, True, h[ri := remove1 (h ! ri ! idx) (h ! ri)]),
          (c, asg, i, j, ri, idx, revised, h))
      \<in> measure (\<lambda>(c, asg, i, j, ri, idx, revised, h). length (h ! ri) - idx)"
  proof (cases "ri < length h")
    case True
    have "h ! ri ! idx \<in> set (h ! ri)" using a by simp
    then have "length (remove1 (h ! ri ! idx) (h ! ri)) = length (h ! ri) - 1"
      by (simp add: length_remove1)
    with True a show ?thesis by simp
  next
    case False
    then have "h[ri := remove1 (h ! ri ! idx) (h ! ri)] = h"
      by (simp add: list_update_beyond)
    then show ?thesis using a by simp
  qed
qed

declare revise_loop.simps [simp del]

definition revise :: "'v csp \<Rightarrow> ref dict \<Rightarrow> name \<Rightarrow> name \<Rightarrow> 'v heap \<Rightarrow> error + bool \<times> 'v heap" where
  "revise c asg i j h =
     (case getitem asg i of
        Inl e \<Rightarrow> Inl e
      | Inr ri \<Rightarrow> revise_loop c asg i j ri 0 False h)"

text \<open>
  \<open>inference\<close>: the \<open>while queue\<close> loop. The queue is the caller's list, consumed from
  the front (\<open>queue.pop(0)\<close>) and extended at the back (\<open>queue.append(k)\<close>). A run that
  never leaves the loop has the value \<open>None\<close>.
\<close>

partial_function (option) inference ::
  "'v csp \<Rightarrow> ref dict \<Rightarrow> arc list \<Rightarrow> 'v heap \<Rightarrow> (error + bool \<times> 'v heap) option" where
  "inference c asg queue h =
     (case queue of
        [] \<Rightarrow> Some (Inr (True, h))
      | (i, j) # rest \<Rightarrow>
          (case revise c asg i j h of
             Inl e \<Rightarrow> Some (Inl e)
           | Inr (revised, h') \<Rightarrow>
               if revised then
                 (case getitem asg i of
                    Inl e \<Rightarrow> Some (Inl e)
                  | Inr ri \<Rightarrow>
                      if length (h' ! ri) = 0 then Some (Inr (False, h'))
                      else
                        (case get_all_neighboring_arcs c i of
                           Inl e \<Rightarrow> Some (Inl e)
                         | Inr neighboring_arcs \<Rightarrow>
                             inference c asg
                               (rest @ filter (\<lambda>k. fst k \<noteq> j) neighboring_arcs) h'))
               else inference c asg rest h'))"

section \<open>Backtracking search\<close>

text \<open>
  \<open>backtrack\<close> returns the assignment dictionary or \<open>False\<close>. \<open>if result:\<close> tests
  truthiness: \<open>False\<close> and the empty dictionary are false.
\<close>

datatype result = Solution "ref dict" | Failure

definition truthy :: "result \<Rightarrow> bool" where
  "truthy r = (case r of Solution d \<Rightarrow> d \<noteq> [] | Failure \<Rightarrow> False)"

text \<open>
  \<open>copy.deepcopy\<close> of a dictionary of lists: every list object is copied to a new one.
  The memo of \<open>deepcopy\<close> maps an object already copied to its copy, so two keys that
  share a list share the copy. The elements are atoms.
\<close>

fun deepcopy_items :: "(ref \<times> ref) list \<Rightarrow> ref dict \<Rightarrow> 'v heap \<Rightarrow> ref dict \<times> 'v heap" where
  "deepcopy_items memo [] h = ([], h)"
| "deepcopy_items memo ((k, r) # d) h =
     (case map_of memo r of
        Some r' \<Rightarrow>
          (case deepcopy_items memo d h of (d', h') \<Rightarrow> ((k, r') # d', h'))
      | None \<Rightarrow>
          (case deepcopy_items ((r, length h) # memo) d (h @ [h ! r]) of
             (d', h') \<Rightarrow> ((k, length h) # d', h')))"

definition deepcopy :: "ref dict \<Rightarrow> 'v heap \<Rightarrow> ref dict \<times> 'v heap" where
  "deepcopy d h = deepcopy_items [] d h"

text \<open>The test at the head of \<open>backtrack\<close>: every list has length one.\<close>

definition finished :: "ref dict \<Rightarrow> 'v heap \<Rightarrow> bool" where
  "finished asg h = list_all (\<lambda>(variable, r). length (h ! r) = 1) asg"

text \<open>
  \<open>select_unassigned_variable\<close>: the first variable whose list is longer than one;
  Python's \<open>None\<close> when the loop falls through.
\<close>

definition select_unassigned_variable :: "ref dict \<Rightarrow> 'v heap \<Rightarrow> name option" where
  "select_unassigned_variable asg h =
     map_option fst (find (\<lambda>(variable, r). length (h ! r) > 1) asg)"

text \<open>
  The consistency pre-check of \<open>backtrack\<close>, \<open>for otherVariable in assignment\<close>, over the
  items of the dictionary (its keys are distinct, so \<open>assignment[otherVariable]\<close> is the
  item's list). \<open>self.constraints[variable]\<close> is looked up for every other variable.
\<close>

fun consistent_loop :: "'v csp \<Rightarrow> 'v heap \<Rightarrow> name \<Rightarrow> 'v \<Rightarrow> ref dict \<Rightarrow> error + bool" where
  "consistent_loop c h variable val [] = Inr True"
| "consistent_loop c h variable val ((otherVariable, ro) # rest) =
     (if otherVariable \<noteq> variable then
        (case getitem (constraints c) variable of
           Inl e \<Rightarrow> Inl e
         | Inr m \<Rightarrow>
             (case map_of m otherVariable of
                None \<Rightarrow> consistent_loop c h variable val rest
              | Some ps \<Rightarrow>
                  if list_ex (\<lambda>pair. pair \<in> set ps) (get_all_possible_pairs [val] (h ! ro))
                  then consistent_loop c h variable val rest
                  else Inr False))
      else consistent_loop c h variable val rest)"

text \<open>\<open>assignment[variable].remove(value)\<close>.\<close>

definition remove_value :: "ref dict \<Rightarrow> name \<Rightarrow> 'v \<Rightarrow> 'v heap \<Rightarrow> error + 'v heap" where
  "remove_value asg variable val h =
     (case getitem asg variable of
        Inl e \<Rightarrow> Inl e
      | Inr r \<Rightarrow>
          if val \<in> set (h ! r) then Inr (h[r := remove1 val (h ! r)]) else Inl ValueError)"

text \<open>
  \<open>backtrack\<close>. The recursion of the method and its loop \<open>for value in values\<close> are one
  function over the program point: \<open>Entry\<close> is the head of the method, and
  \<open>Loop variable vals idx\<close> is the head of the loop, where \<open>vals\<close> is the list object
  that \<open>values = assignment[variable]\<close> named and \<open>idx\<close> is the index of the list
  iterator. \<open>assignment[variable] = [value]\<close> allocates a new one-element list and
  rebinds the key, so from then on \<open>assignment[variable]\<close> and \<open>values\<close> are different
  objects; the final \<open>assignment[variable].remove(value)\<close> acts on whatever the key
  refers to at that moment.

  The function returns the result together with the dictionary \<open>assignment\<close> of the
  frame as the call leaves it (the caller's object, mutated in place) and the heap. In the
  loop, an attempt that did not reach \<open>result = self.backtrack(...)\<close> continues like one
  whose result is \<open>False\<close>. A call that never returns has the value \<open>None\<close>.
\<close>

datatype point = Entry | Loop name ref nat

partial_function (option) backtrack_at ::
  "'v csp \<Rightarrow> point \<Rightarrow> ref dict \<Rightarrow> 'v heap \<Rightarrow> (error + result \<times> ref dict \<times> 'v heap) option" where
  "backtrack_at c pt asg h =
     (case pt of
        Entry \<Rightarrow>
          if finished asg h then Some (Inr (Solution asg, asg, h))
          else
            (case select_unassigned_variable asg h of
               None \<Rightarrow> Some (Inl KeyError)
             | Some variable \<Rightarrow>
                 (case getitem asg variable of
                    Inl e \<Rightarrow> Some (Inl e)
                  | Inr vals \<Rightarrow> backtrack_at c (Loop variable vals 0) asg h))
      | Loop variable vals idx \<Rightarrow>
          if idx < length (h ! vals) then
            (case consistent_loop c h variable (h ! vals ! idx) asg of
               Inl e \<Rightarrow> Some (Inl e)
             | Inr consistent \<Rightarrow>
                 Option.bind
                   (if consistent then
                      (case deepcopy (setitem variable (length h) asg) (h @ [[h ! vals ! idx]]) of
                         (assignmentCopy, h2) \<Rightarrow>
                           Option.bind (inference c assignmentCopy (get_all_arcs c) h2)
                             (\<lambda>ac3. case ac3 of
                                Inl e \<Rightarrow> Some (Inl e)
                              | Inr (inferences, h3) \<Rightarrow>
                                  if inferences then
                                    Option.bind (backtrack_at c Entry assignmentCopy h3)
                                      (\<lambda>sub. case sub of
                                         Inl e \<Rightarrow> Some (Inl e)
                                       | Inr (res, frame, h4) \<Rightarrow>
                                           Some (Inr (res, setitem variable (length h) asg, h4)))
                                  else Some (Inr (Failure, setitem variable (length h) asg, h3))))
                    else Some (Inr (Failure, asg, h)))
                   (\<lambda>attempt. case attempt of
                      Inl e \<Rightarrow> Some (Inl e)
                    | Inr (res, asg', h') \<Rightarrow>
                        if truthy res then Some (Inr (res, asg', h'))
                        else
                          (case remove_value asg' variable (h ! vals ! idx) h' of
                             Inl e \<Rightarrow> Some (Inl e)
                           | Inr h'' \<Rightarrow> backtrack_at c (Loop variable vals (idx + 1)) asg' h'')))
          else Some (Inr (Failure, asg, h)))"

definition backtrack ::
  "'v csp \<Rightarrow> ref dict \<Rightarrow> 'v heap \<Rightarrow> (error + result \<times> ref dict \<times> 'v heap) option" where
  "backtrack c asg h = backtrack_at c Entry asg h"

text \<open>
  \<open>backtracking_search\<close>: the value of the first \<open>self.inference(...)\<close> is not used.
\<close>

definition backtracking_search :: "'v csp \<Rightarrow> 'v heap \<Rightarrow> (error + result \<times> 'v heap) option" where
  "backtracking_search c h =
     (case deepcopy (domains c) h of
        (assignment, h1) \<Rightarrow>
          Option.bind (inference c assignment (get_all_arcs c) h1)
            (\<lambda>ac3. case ac3 of
               Inl e \<Rightarrow> Some (Inl e)
             | Inr (inferences, h2) \<Rightarrow>
                 Option.bind (backtrack c assignment h2)
                   (\<lambda>r. case r of
                      Inl e \<Rightarrow> Some (Inl e)
                    | Inr (res, frame, h3) \<Rightarrow> Some (Inr (res, h3)))))"

section \<open>Properties and example instances\<close>

text \<open>The number of list elements in the heap.\<close>

definition heap_size :: "'v heap \<Rightarrow> nat" where
  "heap_size h = sum_list (map length h)"

text \<open>
  \<open>keeps n h h'\<close>: the heap \<open>h'\<close> has every object of \<open>h\<close>, and the first \<open>n\<close> objects
  hold the same elements in both.
\<close>

definition keeps :: "nat \<Rightarrow> 'v heap \<Rightarrow> 'v heap \<Rightarrow> bool" where
  "keeps n h h' = (length h \<le> length h' \<and> take n h' = take n h)"

text \<open>The stored legal pairs \<open>self.constraints[i][j]\<close>, when the arc is declared.\<close>

definition legal_pairs :: "'v csp \<Rightarrow> name \<Rightarrow> name \<Rightarrow> ('v \<times> 'v) list option" where
  "legal_pairs c i j =
     (case map_of (constraints c) i of None \<Rightarrow> None | Some m \<Rightarrow> map_of m j)"

text \<open>
  Arc consistency of \<open>(i, j)\<close> in an assignment: both variables are assigned, the arc is
  declared, and every value left for \<open>i\<close> has a legal partner among the values left
  for \<open>j\<close>.
\<close>

definition arc_consistent :: "'v csp \<Rightarrow> ref dict \<Rightarrow> 'v heap \<Rightarrow> name \<Rightarrow> name \<Rightarrow> bool" where
  "arc_consistent c asg h i j =
     (case map_of asg i of
        None \<Rightarrow> False
      | Some ri \<Rightarrow>
          (case map_of asg j of
             None \<Rightarrow> False
           | Some rj \<Rightarrow>
               (case legal_pairs c i j of
                  None \<Rightarrow> False
                | Some ps \<Rightarrow>
                    list_all (\<lambda>x. list_ex (\<lambda>y. (x, y) \<in> set ps) (h ! rj)) (h ! ri))))"

text \<open>
  The loop of \<open>backtrack\<close> as the statement of C4 below words it, to be compared with
  \<open>backtrack_at\<close> at the loop head, which follows the source. \<open>try_candidate\<close> is one
  candidate \<open>v\<close>: it is bound as a new one-element list, the assignment is deep-copied,
  AC-3 runs on the copy over all arcs, and when AC-3 returns \<open>True\<close> the search
  continues on the copy. \<open>tried_in_order\<close> goes through a given list of candidates from
  its head: the first attempt with a solution is the result; after an attempt that fails,
  the candidate is taken out of its one-element list, which is then empty, and the next
  candidate of the given list is tried; when no candidate is left the result is
  \<open>False\<close>. There is no consistency pre-check and no iterator over a list object here.
\<close>

definition try_candidate ::
  "'v csp \<Rightarrow> name \<Rightarrow> 'v \<Rightarrow> ref dict \<Rightarrow> 'v heap \<Rightarrow> (error + result \<times> 'v heap) option" where
  "try_candidate c variable v asg h =
     (case deepcopy (setitem variable (length h) asg) (h @ [[v]]) of
        (assignmentCopy, h2) \<Rightarrow>
          (case inference c assignmentCopy (get_all_arcs c) h2 of
             None \<Rightarrow> None
           | Some (Inl e) \<Rightarrow> Some (Inl e)
           | Some (Inr (inferences, h3)) \<Rightarrow>
               if inferences then
                 (case backtrack c assignmentCopy h3 of
                    None \<Rightarrow> None
                  | Some (Inl e) \<Rightarrow> Some (Inl e)
                  | Some (Inr (res, frame, h4)) \<Rightarrow> Some (Inr (res, h4)))
               else Some (Inr (Failure, h3))))"

fun tried_in_order ::
  "'v csp \<Rightarrow> name \<Rightarrow> 'v list \<Rightarrow> ref dict \<Rightarrow> 'v heap \<Rightarrow>
     (error + result \<times> ref dict \<times> 'v heap) option" where
  "tried_in_order c variable [] asg h = Some (Inr (Failure, asg, h))"
| "tried_in_order c variable (v # vs) asg h =
     (case try_candidate c variable v asg h of
        None \<Rightarrow> None
      | Some (Inl e) \<Rightarrow> Some (Inl e)
      | Some (Inr (res, h')) \<Rightarrow>
          if truthy res then Some (Inr (res, setitem variable (length h) asg, h'))
          else tried_in_order c variable vs (setitem variable (length h) asg)
                 (h'[length h := []]))"

text \<open>
  Variables \<open>a\<close> in \<open>[1, 2, 3]\<close> and \<open>b\<close> in \<open>[3]\<close> with the constraint \<open>a = b\<close>
  declared in both directions. The assignment \<open>a = 3\<close>, \<open>b = 3\<close> satisfies it.
\<close>

definition skip_csp :: "int csp" where
  "skip_csp = \<lparr>variables = [''a'', ''b''], domains = [(''a'', 0), (''b'', 1)],
       constraints = [(''a'', [(''b'', [(3, 3)])]), (''b'', [(''a'', [(3, 3)])])]\<rparr>"

definition skip_heap :: "int heap" where
  "skip_heap = [[1, 2, 3], [3]]"

text \<open>
  Variables \<open>a\<close> in \<open>[1, 2]\<close> and \<open>b\<close> in \<open>[3, 4]\<close> with the constraint \<open>a = b\<close>
  declared in both directions: no pair is legal.
\<close>

definition equal_csp :: "int csp" where
  "equal_csp = \<lparr>variables = [''a'', ''b''], domains = [(''a'', 0), (''b'', 1)],
       constraints = [(''a'', [(''b'', [])]), (''b'', [(''a'', [])])]\<rparr>"

definition equal_heap :: "int heap" where
  "equal_heap = [[1, 2], [3, 4]]"

text \<open>Variables \<open>a\<close> and \<open>b\<close>, both in \<open>[1]\<close>, with the all-different constraint.\<close>

definition diff_csp :: "int csp" where
  "diff_csp = \<lparr>variables = [''a'', ''b''], domains = [(''a'', 0), (''b'', 1)],
       constraints = [(''a'', [(''b'', [])]), (''b'', [(''a'', [])])]\<rparr>"

definition diff_heap :: "int heap" where
  "diff_heap = [[1], [1]]"

text \<open>
  Variables \<open>a\<close> in \<open>[1]\<close>, \<open>b\<close> in \<open>[2]\<close> and \<open>c\<close> in \<open>[3]\<close> with the one-way
  constraints \<open>a = b\<close> from \<open>a\<close> to \<open>b\<close> and \<open>c > a\<close> from \<open>c\<close> to \<open>a\<close>.
\<close>

definition chain_csp :: "int csp" where
  "chain_csp = \<lparr>variables = [''a'', ''b'', ''c''],
       domains = [(''a'', 0), (''b'', 1), (''c'', 2)],
       constraints = [(''a'', [(''b'', [])]), (''b'', []), (''c'', [(''a'', [(3, 1)])])]\<rparr>"

definition chain_heap :: "int heap" where
  "chain_heap = [[1], [2], [3]]"

text \<open>
  Variables \<open>a\<close> and \<open>b\<close>, both in \<open>[1, 2]\<close>, with the one-way constraint
  \<open>a \<noteq> b\<close> from \<open>a\<close> to \<open>b\<close>.
\<close>

definition oneway_csp :: "int csp" where
  "oneway_csp = \<lparr>variables = [''a'', ''b''], domains = [(''a'', 0), (''b'', 1)],
       constraints = [(''a'', [(''b'', [(1, 2), (2, 1)])]), (''b'', [])]\<rparr>"

definition oneway_heap :: "int heap" where
  "oneway_heap = [[1, 2], [1, 2]]"

text \<open>Variables \<open>a\<close> in \<open>[1, 2]\<close> and \<open>b\<close> in \<open>[3, 4]\<close> without constraints.\<close>

definition free_csp :: "int csp" where
  "free_csp = \<lparr>variables = [''a'', ''b''], domains = [(''a'', 0), (''b'', 1)],
       constraints = [(''a'', []), (''b'', [])]\<rparr>"

definition free_heap :: "int heap" where
  "free_heap = [[1, 2], [3, 4]]"

text \<open>
  Variables \<open>a\<close> in \<open>[1, 2]\<close>, \<open>b\<close> in \<open>[1]\<close> and \<open>c\<close> in \<open>[5]\<close> with the one-way
  constraints \<open>a \<noteq> b\<close> from \<open>a\<close> to \<open>b\<close> and \<open>a \<noteq> c\<close> from \<open>a\<close> to \<open>c\<close>. The
  assignment \<open>a = 2\<close>, \<open>b = 1\<close>, \<open>c = 5\<close> satisfies them.
\<close>

definition fork_csp :: "int csp" where
  "fork_csp = \<lparr>variables = [''a'', ''b'', ''c''],
       domains = [(''a'', 0), (''b'', 1), (''c'', 2)],
       constraints =
         [(''a'', [(''b'', [(2, 1)]), (''c'', [(1, 5), (2, 5)])]), (''b'', []), (''c'', [])]\<rparr>"

definition fork_heap :: "int heap" where
  "fork_heap = [[1, 2], [1], [5]]"

text \<open>
  Variables \<open>a\<close>, \<open>b\<close> and \<open>c\<close>, all in \<open>[1, 2]\<close>, with the all-different constraint:
  three variables and two values, so there is no solution.
\<close>

definition pigeon_csp :: "int csp" where
  "pigeon_csp = \<lparr>variables = [''a'', ''b'', ''c''],
       domains = [(''a'', 0), (''b'', 1), (''c'', 2)],
       constraints =
         [(''a'', [(''b'', [(1, 2), (2, 1)]), (''c'', [(1, 2), (2, 1)])]),
          (''b'', [(''a'', [(1, 2), (2, 1)]), (''c'', [(1, 2), (2, 1)])]),
          (''c'', [(''a'', [(1, 2), (2, 1)]), (''b'', [(1, 2), (2, 1)])])]\<rparr>"

definition pigeon_heap :: "int heap" where
  "pigeon_heap = [[1, 2], [1, 2], [1, 2]]"

text \<open>
  Variables \<open>a\<close> in \<open>[1, 2]\<close> and \<open>b\<close> in \<open>[1]\<close> with the one-way constraint
  \<open>a = 2\<close> from \<open>b\<close> to \<open>a\<close>. The assignment \<open>a = 2\<close>, \<open>b = 1\<close> satisfies it.
\<close>

definition retry_csp :: "int csp" where
  "retry_csp = \<lparr>variables = [''a'', ''b''], domains = [(''a'', 0), (''b'', 1)],
       constraints = [(''a'', []), (''b'', [(''a'', [(1, 2)])])]\<rparr>"

definition retry_heap :: "int heap" where
  "retry_heap = [[1, 2], [1]]"

section \<open>Dictionaries and unfolding equations\<close>

lemma find_Some_mem: "find P xs = Some x \<Longrightarrow> x \<in> set xs \<and> P x"
  by (induction xs) (auto split: if_splits)

lemma getitem_Inr_iff: "getitem d k = Inr v \<longleftrightarrow> map_of d k = Some v"
  by (simp add: getitem_def split: option.splits)

lemma getitem_Inl_iff: "getitem d k = Inl e \<longleftrightarrow> map_of d k = None \<and> e = KeyError"
  by (auto simp: getitem_def split: option.splits)

lemma inference_Nil: "inference c asg [] h = Some (Inr (True, h))"
  by (subst inference.simps) simp

lemma inference_Cons:
  "inference c asg ((i, j) # rest) h =
     (case revise c asg i j h of
        Inl e \<Rightarrow> Some (Inl e)
      | Inr (revised, h') \<Rightarrow>
          if revised then
            (case getitem asg i of
               Inl e \<Rightarrow> Some (Inl e)
             | Inr ri \<Rightarrow>
                 if length (h' ! ri) = 0 then Some (Inr (False, h'))
                 else
                   (case get_all_neighboring_arcs c i of
                      Inl e \<Rightarrow> Some (Inl e)
                    | Inr neighboring_arcs \<Rightarrow>
                        inference c asg (rest @ filter (\<lambda>k. fst k \<noteq> j) neighboring_arcs) h'))
          else inference c asg rest h')"
  by (subst inference.simps) simp

lemma bind_as_case: "Option.bind m f = (case m of None \<Rightarrow> None | Some x \<Rightarrow> f x)"
  by (cases m) simp_all

lemma backtrack_at_Entry:
  "backtrack_at c Entry asg h =
     (if finished asg h then Some (Inr (Solution asg, asg, h))
      else
        (case select_unassigned_variable asg h of
           None \<Rightarrow> Some (Inl KeyError)
         | Some variable \<Rightarrow>
             (case getitem asg variable of
                Inl e \<Rightarrow> Some (Inl e)
              | Inr vals \<Rightarrow> backtrack_at c (Loop variable vals 0) asg h)))"
  by (subst backtrack_at.simps) simp

lemma backtrack_at_Loop:
  "backtrack_at c (Loop variable vals idx) asg h =
     (if idx < length (h ! vals) then
        (case consistent_loop c h variable (h ! vals ! idx) asg of
           Inl e \<Rightarrow> Some (Inl e)
         | Inr consistent \<Rightarrow>
             (case (if consistent then
                      (case deepcopy (setitem variable (length h) asg) (h @ [[h ! vals ! idx]]) of
                         (assignmentCopy, h2) \<Rightarrow>
                           (case inference c assignmentCopy (get_all_arcs c) h2 of
                              None \<Rightarrow> None
                            | Some ac3 \<Rightarrow>
                                (case ac3 of
                                   Inl e \<Rightarrow> Some (Inl e)
                                 | Inr (inferences, h3) \<Rightarrow>
                                     if inferences then
                                       (case backtrack_at c Entry assignmentCopy h3 of
                                          None \<Rightarrow> None
                                        | Some sub \<Rightarrow>
                                            (case sub of
                                               Inl e \<Rightarrow> Some (Inl e)
                                             | Inr (res, frame, h4) \<Rightarrow>
                                                 Some (Inr (res, setitem variable (length h) asg, h4))))
                                     else Some (Inr (Failure, setitem variable (length h) asg, h3)))))
                    else Some (Inr (Failure, asg, h))) of
                None \<Rightarrow> None
              | Some attempt \<Rightarrow>
                  (case attempt of
                     Inl e \<Rightarrow> Some (Inl e)
                   | Inr (res, asg', h') \<Rightarrow>
                       if truthy res then Some (Inr (res, asg', h'))
                       else
                         (case remove_value asg' variable (h ! vals ! idx) h' of
                            Inl e \<Rightarrow> Some (Inl e)
                          | Inr h'' \<Rightarrow> backtrack_at c (Loop variable vals (idx + 1)) asg' h''))))
      else Some (Inr (Failure, asg, h)))"
  by (subst backtrack_at.simps, unfold bind_as_case, simp)

lemma backtracking_search_unfold:
  "backtracking_search c h =
     (case deepcopy (domains c) h of
        (assignment, h1) \<Rightarrow>
          (case inference c assignment (get_all_arcs c) h1 of
             None \<Rightarrow> None
           | Some ac3 \<Rightarrow>
               (case ac3 of
                  Inl e \<Rightarrow> Some (Inl e)
                | Inr (inferences, h2) \<Rightarrow>
                    (case backtrack c assignment h2 of
                       None \<Rightarrow> None
                     | Some r \<Rightarrow>
                         (case r of
                            Inl e \<Rightarrow> Some (Inl e)
                          | Inr (res, frame, h3) \<Rightarrow> Some (Inr (res, h3)))))))"
  unfolding backtracking_search_def bind_as_case by simp

lemmas eval_simps =
  backtracking_search_unfold backtrack_def backtrack_at_Entry backtrack_at_Loop
  inference_Nil inference_Cons revise_def revise_loop.simps getitem_def
  get_all_arcs_def get_all_neighboring_arcs_def deepcopy_def finished_def
  select_unassigned_variable_def remove_value_def truthy_def get_all_possible_pairs_def

section \<open>The example instances are built by the construction methods\<close>

lemma skip_built:
  "(case add_constraint_one_way ''a'' ''b'' (\<lambda>x y. x = y)
          (add_variable ''b'' [3] (add_variable ''a'' [1, 2, 3] (new_csp, []))) of
      Inl e \<Rightarrow> Inl e
    | Inr s \<Rightarrow> add_constraint_one_way ''b'' ''a'' (\<lambda>x y. x = y) s) =
   Inr (skip_csp, skip_heap)"
  by (simp add: add_constraint_one_way_def add_variable_def new_csp_def getitem_def
      get_all_possible_pairs_def skip_csp_def skip_heap_def)

lemma equal_built:
  "(case add_constraint_one_way ''a'' ''b'' (\<lambda>x y. x = y)
          (add_variable ''b'' [3, 4] (add_variable ''a'' [1, 2] (new_csp, []))) of
      Inl e \<Rightarrow> Inl e
    | Inr s \<Rightarrow> add_constraint_one_way ''b'' ''a'' (\<lambda>x y. x = y) s) =
   Inr (equal_csp, equal_heap)"
  by (simp add: add_constraint_one_way_def add_variable_def new_csp_def getitem_def
      get_all_possible_pairs_def equal_csp_def equal_heap_def)

lemma diff_built:
  "add_all_different_constraint [''a'', ''b'']
     (add_variable ''b'' [1] (add_variable ''a'' [1] (new_csp, []))) =
   Inr (diff_csp, diff_heap)"
  by (simp add: add_all_different_constraint_def add_constraint_one_way_def add_variable_def
      new_csp_def getitem_def get_all_possible_pairs_def diff_csp_def diff_heap_def)

lemma chain_built:
  "(case add_constraint_one_way ''a'' ''b'' (\<lambda>x y. x = y)
          (add_variable ''c'' [3] (add_variable ''b'' [2]
             (add_variable ''a'' [1] (new_csp, [])))) of
      Inl e \<Rightarrow> Inl e
    | Inr s \<Rightarrow> add_constraint_one_way ''c'' ''a'' (\<lambda>x y. x > y) s) =
   Inr (chain_csp, chain_heap)"
  by (simp add: add_constraint_one_way_def add_variable_def new_csp_def getitem_def
      get_all_possible_pairs_def chain_csp_def chain_heap_def)

lemma oneway_built:
  "add_constraint_one_way ''a'' ''b'' (\<lambda>x y. x \<noteq> y)
     (add_variable ''b'' [1, 2] (add_variable ''a'' [1, 2] (new_csp, []))) =
   Inr (oneway_csp, oneway_heap)"
  by (simp add: add_constraint_one_way_def add_variable_def new_csp_def getitem_def
      get_all_possible_pairs_def oneway_csp_def oneway_heap_def)

lemma free_built:
  "add_variable ''b'' [3, 4] (add_variable ''a'' [1, 2] (new_csp, [])) = (free_csp, free_heap)"
  by (simp add: add_variable_def new_csp_def free_csp_def free_heap_def)

lemma fork_built:
  "(case add_constraint_one_way ''a'' ''b'' (\<lambda>x y. x \<noteq> y)
          (add_variable ''c'' [5] (add_variable ''b'' [1] (add_variable ''a'' [1, 2] (new_csp, [])))) of
      Inl e \<Rightarrow> Inl e
    | Inr s \<Rightarrow> add_constraint_one_way ''a'' ''c'' (\<lambda>x y. x \<noteq> y) s) =
   Inr (fork_csp, fork_heap)"
  by (simp add: add_constraint_one_way_def add_variable_def new_csp_def getitem_def
      get_all_possible_pairs_def fork_csp_def fork_heap_def)

lemma pigeon_built:
  "add_all_different_constraint [''a'', ''b'', ''c'']
     (add_variable ''c'' [1, 2] (add_variable ''b'' [1, 2] (add_variable ''a'' [1, 2] (new_csp, []))))
   = Inr (pigeon_csp, pigeon_heap)"
  by (simp add: add_all_different_constraint_def add_constraint_one_way_def add_variable_def
      new_csp_def getitem_def get_all_possible_pairs_def pigeon_csp_def pigeon_heap_def)

lemma retry_built:
  "add_constraint_one_way ''b'' ''a'' (\<lambda>x y. y = 2)
     (add_variable ''b'' [1] (add_variable ''a'' [1, 2] (new_csp, []))) =
   Inr (retry_csp, retry_heap)"
  by (simp add: add_constraint_one_way_def add_variable_def new_csp_def getitem_def
      get_all_possible_pairs_def retry_csp_def retry_heap_def)

section \<open>Construction: \<open>add_variable\<close> and \<open>get_all_neighboring_arcs\<close>\<close>

text \<open>
  C6, as the code has it: \<open>add_variable\<close> with a name that is already registered raises
  nothing. It appends the name to \<open>self.variables\<close> once more, binds
  \<open>self.domains[name]\<close> to a new list holding the given domain, and resets
  \<open>self.constraints[name]\<close> to the empty dictionary.
\<close>

theorem add_variable_existing:
  assumes "nm \<in> set (variables c)"
  shows "add_variable nm domain (c, h) =
     (c\<lparr>variables := variables c @ [nm],
        domains := setitem nm (length h) (domains c),
        constraints := setitem nm [] (constraints c)\<rparr>,
      h @ [domain])"
  by (simp add: add_variable_def)

theorem add_variable_existing_witness:
  "''a'' \<in> set (variables (fst (add_variable ''a'' [1 :: int] (new_csp, [])))) \<and>
   add_variable ''a'' [2] (add_variable ''a'' [1 :: int] (new_csp, [])) =
     (\<lparr>variables = [''a'', ''a''], domains = [(''a'', 1)], constraints = [(''a'', [])]\<rparr>,
      [[1], [2]])"
proof -
  obtain c h where s: "add_variable ''a'' [1 :: int] (new_csp, []) = (c, h)"
    by (cases "add_variable ''a'' [1 :: int] (new_csp, [])")
  then have c: "c = \<lparr>variables = [''a''], domains = [(''a'', 0)], constraints = [(''a'', [])]\<rparr>"
    and h: "h = [[1]]"
    by (simp_all add: add_variable_def new_csp_def)
  have m: "''a'' \<in> set (variables c)" by (simp add: c)
  from add_variable_existing[OF m, of "[2]" h] show ?thesis
    by (simp add: s) (simp add: c h)
qed

text \<open>
  The claim C6 says that the second registration of a name fails with a
  DuplicateVariable error and neither registers nor overwrites. The second call returns:
  the name is listed twice and its domain is replaced.
\<close>

theorem add_variable_duplicate_overwrites:
  "add_variable ''a'' [2] (add_variable ''a'' [1 :: int] (new_csp, [])) =
     (\<lparr>variables = [''a'', ''a''], domains = [(''a'', 1)], constraints = [(''a'', [])]\<rparr>,
      [[1], [2]])"
  by (simp add: add_variable_def new_csp_def)

text \<open>
  C7 at the instance with the single one-way constraint from \<open>a\<close> to \<open>b\<close>: the only
  declared arc is \<open>(a, b)\<close>, an arc into \<open>b\<close>. \<open>get_all_neighboring_arcs\<close> enumerates
  \<open>self.constraints[var]\<close>, the constraints declared from \<open>var\<close>: for \<open>b\<close> it returns
  no arc, and for \<open>a\<close> it returns \<open>(b, a)\<close>, which is not declared.
\<close>

theorem neighboring_arcs_one_way:
  "get_all_arcs oneway_csp = [(''a'', ''b'')] \<and>
   get_all_neighboring_arcs oneway_csp ''b'' = Inr [] \<and>
   get_all_neighboring_arcs oneway_csp ''a'' = Inr [(''b'', ''a'')]"
  by (simp add: get_all_arcs_def get_all_neighboring_arcs_def getitem_def oneway_csp_def)

text \<open>
  What the undeclared arc does to the search: on the fork instance, whose two constraints
  are one-way from \<open>a\<close>, revising \<open>(a, b)\<close> removes \<open>1\<close> from the list of \<open>a\<close> and
  enqueues the neighbouring arc \<open>(c, a)\<close>; revising it looks up
  \<open>self.constraints[c][a]\<close>, which does not exist.
\<close>

lemma inference_undeclared_arc_raises:
  "inference fork_csp (domains fork_csp) (get_all_arcs fork_csp) fork_heap = Some (Inl KeyError) \<and>
   backtracking_search fork_csp fork_heap = Some (Inl KeyError)"
  by (simp add: eval_simps fork_csp_def fork_heap_def)

section \<open>AC-3: what \<open>revise\<close> does to the heap, and termination of \<open>inference\<close>\<close>

lemma heap_size_remove1:
  assumes "r < length h" and "x \<in> set (h ! r)"
  shows "heap_size (h[r := remove1 x (h ! r)]) < heap_size h"
proof -
  have pos: "0 < length (h ! r)" using assms(2) by (cases "h ! r") auto
  have "h ! r \<in> set h" using assms(1) by simp
  then have "length (h ! r) \<in> set (map length h)" by simp
  then have le: "length (h ! r) \<le> sum_list (map length h)"
    by (simp add: member_le_sum_list)
  have "sum_list ((map length h)[r := length (h ! r) - 1])
      = sum_list (map length h) + (length (h ! r) - 1) - length (h ! r)"
    using assms(1) by (simp add: sum_list_update)
  with pos le have "sum_list ((map length h)[r := length (h ! r) - 1]) < sum_list (map length h)"
    by linarith
  then show ?thesis
    using assms(2) by (simp add: heap_size_def map_update length_remove1)
qed

lemma revise_loop_effect:
  "revise_loop c asg i j ri idx revised h = Inr (b, h') \<Longrightarrow> ri < length h \<Longrightarrow>
     length h' = length h \<and> heap_size h' \<le> heap_size h \<and> (revised \<longrightarrow> b) \<and>
     (b \<longrightarrow> revised \<or> heap_size h' < heap_size h) \<and> (\<not> b \<longrightarrow> h' = h) \<and>
     (\<forall>r. r \<noteq> ri \<longrightarrow> h' ! r = h ! r)"
proof (induction c asg i j ri idx revised h rule: revise_loop.induct)
  case (1 c asg i j ri idx revised h)
  show ?case
  proof (cases "idx < length (h ! ri)")
    case False
    with "1.prems"(1) have "b = revised" and "h' = h"
      by (subst (asm) revise_loop.simps, simp)+
    then show ?thesis by simp
  next
    case True
    from "1.prems"(1) True obtain rj where rj: "getitem asg j = Inr rj"
      by (subst (asm) revise_loop.simps) (auto split: sum.splits)
    from "1.prems"(1) True rj obtain s where s: "satisfied_loop c i j (h ! ri ! idx) (h ! rj) = Inr s"
      by (subst (asm) revise_loop.simps) (auto split: sum.splits)
    show ?thesis
    proof (cases s)
      case True
      with "1.prems"(1) \<open>idx < length (h ! ri)\<close> rj s
      have "revise_loop c asg i j ri (idx + 1) revised h = Inr (b, h')"
        by (subst (asm) revise_loop.simps) simp
      from "1.IH"(1)[OF \<open>idx < length (h ! ri)\<close> rj s True this "1.prems"(2)]
      show ?thesis .
    next
      case False
      let ?h1 = "h[ri := remove1 (h ! ri ! idx) (h ! ri)]"
      from False "1.prems"(1) \<open>idx < length (h ! ri)\<close> rj s
      have rec: "revise_loop c asg i j ri (idx + 1) True ?h1 = Inr (b, h')"
        by (subst (asm) revise_loop.simps) simp
      have len: "ri < length ?h1" using "1.prems"(2) by simp
      note ih = "1.IH"(2)[OF \<open>idx < length (h ! ri)\<close> rj s False rec len]
      have mem: "h ! ri ! idx \<in> set (h ! ri)" using \<open>idx < length (h ! ri)\<close> by simp
      have lt: "heap_size ?h1 < heap_size h"
        by (rule heap_size_remove1[OF "1.prems"(2) mem])
      from ih have b: "b" by simp
      from ih lt have ne: "heap_size h' < heap_size h" by simp
      from ih have l: "length h' = length h" by simp
      have fr: "\<forall>r. r \<noteq> ri \<longrightarrow> h' ! r = h ! r"
      proof (intro allI impI)
        fix r assume "r \<noteq> ri"
        with ih have "h' ! r = ?h1 ! r" by simp
        also have "\<dots> = h ! r" using \<open>r \<noteq> ri\<close> by simp
        finally show "h' ! r = h ! r" .
      qed
      show ?thesis using b ne l fr by simp
    qed
  qed
qed

lemma revise_effect:
  assumes "revise c asg i j h = Inr (b, h')" and "\<forall>r \<in> snd ` set asg. r < length h"
  shows "length h' = length h" and "heap_size h' \<le> heap_size h"
    and "b \<Longrightarrow> heap_size h' < heap_size h" and "\<not> b \<Longrightarrow> h' = h"
    and "\<exists>ri. map_of asg i = Some ri \<and> (\<forall>r. r \<noteq> ri \<longrightarrow> h' ! r = h ! r)"
proof -
  from assms(1) obtain ri where ri: "map_of asg i = Some ri"
    and loop: "revise_loop c asg i j ri 0 False h = Inr (b, h')"
    by (auto simp: revise_def getitem_def split: option.splits)
  from ri have "ri \<in> snd ` set asg" by (metis image_eqI map_of_SomeD snd_conv)
  with assms(2) have "ri < length h" by blast
  note eff = revise_loop_effect[OF loop this]
  from eff show "length h' = length h" by simp
  from eff show "heap_size h' \<le> heap_size h" by simp
  from eff show "b \<Longrightarrow> heap_size h' < heap_size h" by simp
  from eff show "\<not> b \<Longrightarrow> h' = h" by simp
  from eff ri show "\<exists>ri. map_of asg i = Some ri \<and> (\<forall>r. r \<noteq> ri \<longrightarrow> h' ! r = h ! r)" by simp
qed

text \<open>
  C8: \<open>inference\<close> terminates. For every CSP, every assignment whose references are
  allocated and every queue of arcs, the call returns (a boolean with the heap, or an
  exception): a revision that reports a change has removed an element from the heap, one
  that reports none leaves the heap as it was and shortens the queue.
\<close>

theorem inference_terminates:
  assumes "\<forall>r \<in> snd ` set asg. r < length h"
  shows "\<exists>res. inference c asg queue h = Some res"
  using assms
proof (induction "heap_size h" arbitrary: h queue rule: less_induct)
  case less
  show ?case
  proof (induction queue)
    case Nil
    show ?case by (subst inference.simps) simp
  next
    case (Cons a rest)
    obtain i j where a: "a = (i, j)" by (cases a)
    show ?case
    proof (cases "revise c asg i j h")
      case (Inl e)
      then show ?thesis unfolding a by (subst inference.simps) simp
    next
      case (Inr p)
      obtain b h' where p: "p = (b, h')" by (cases p)
      note rv = Inr[unfolded p]
      show ?thesis
      proof (cases b)
        case False
        from revise_effect(4)[OF rv less.prems False] have "h' = h" .
        with Cons rv False show ?thesis unfolding a by (subst inference.simps) simp
      next
        case True
        from revise_effect(3)[OF rv less.prems True] have lt: "heap_size h' < heap_size h" .
        from revise_effect(1)[OF rv less.prems] less.prems
        have ok: "\<forall>r \<in> snd ` set asg. r < length h'" by simp
        from less.hyps[OF lt ok]
        have "\<And>q. \<exists>res. inference c asg q h' = Some res" .
        then show ?thesis using rv True unfolding a
          by (subst inference.simps) (simp split: sum.splits)
      qed
    qed
  qed
qed

theorem inference_terminates_witness:
  "list_all (\<lambda>r. r < length chain_heap) (map snd (domains chain_csp)) \<and>
   (\<exists>res. inference chain_csp (domains chain_csp) (get_all_arcs chain_csp) chain_heap = Some res)"
proof -
  have ok: "\<forall>r \<in> snd ` set (domains chain_csp). r < length chain_heap"
    by (simp add: chain_csp_def chain_heap_def)
  from inference_terminates[OF ok, of chain_csp "get_all_arcs chain_csp"] show ?thesis
    by (simp add: chain_csp_def chain_heap_def)
qed

section \<open>AC-3: arc consistency and repeated runs\<close>

lemma satisfied_loop_declared:
  assumes "legal_pairs c i j = Some ps"
  shows "satisfied_loop c i j x ys = Inr (list_ex (\<lambda>y. (x, y) \<in> set ps) ys)"
proof -
  from assms obtain m where m: "map_of (constraints c) i = Some m" and ps: "map_of m j = Some ps"
    by (auto simp: legal_pairs_def split: option.splits)
  show ?thesis
    by (induction ys) (simp_all add: getitem_def m ps)
qed

lemma revise_loop_consistent:
  assumes "map_of asg j = Some rj" and "legal_pairs c i j = Some ps"
    and "list_all (\<lambda>x. list_ex (\<lambda>y. (x, y) \<in> set ps) (h ! rj)) (h ! ri)"
  shows "revise_loop c asg i j ri idx revised h = Inr (revised, h)"
proof (induction "length (h ! ri) - idx" arbitrary: idx)
  case 0
  then show ?case by (subst revise_loop.simps) simp
next
  case (Suc n)
  then have lt: "idx < length (h ! ri)" by simp
  then have "h ! ri ! idx \<in> set (h ! ri)" by simp
  with assms(3) have sat: "list_ex (\<lambda>y. (h ! ri ! idx, y) \<in> set ps) (h ! rj)"
    by (simp add: list_all_iff)
  from Suc(2) have "n = length (h ! ri) - (idx + 1)" by simp
  from Suc(1)[OF this] have "revise_loop c asg i j ri (idx + 1) revised h = Inr (revised, h)" .
  then show ?case
    using lt sat by (subst revise_loop.simps)
      (simp add: getitem_def assms(1) satisfied_loop_declared[OF assms(2)])
qed

lemma revise_consistent:
  assumes "arc_consistent c asg h i j"
  shows "revise c asg i j h = Inr (False, h)"
proof -
  from assms obtain ri rj ps where "map_of asg i = Some ri" "map_of asg j = Some rj"
    "legal_pairs c i j = Some ps"
    "list_all (\<lambda>x. list_ex (\<lambda>y. (x, y) \<in> set ps) (h ! rj)) (h ! ri)"
    by (auto simp: arc_consistent_def split: option.splits)
  then show ?thesis
    by (simp add: revise_def getitem_def revise_loop_consistent)
qed

lemma inference_consistent:
  assumes "\<forall>(i, j) \<in> set queue. arc_consistent c asg h i j"
  shows "inference c asg queue h = Some (Inr (True, h))"
  using assms
proof (induction queue)
  case Nil
  show ?case by (rule inference_Nil)
next
  case (Cons a queue)
  obtain i j where a: "a = (i, j)" by (cases a)
  from Cons.prems have "arc_consistent c asg h i j" by (simp add: a)
  then have "revise c asg i j h = Inr (False, h)" by (rule revise_consistent)
  moreover from Cons have "inference c asg queue h = Some (Inr (True, h))" by simp
  ultimately show ?case by (simp add: a inference_Cons)
qed

text \<open>
  C5 at the instance \<open>a\<close> in \<open>[1, 2]\<close>, \<open>b\<close> in \<open>[3, 4]\<close>, \<open>a = b\<close>, on the deep copy
  of the domains (its lists are at 2 and 3 of the heap). The first run of \<open>inference\<close>
  over all arcs returns \<open>True\<close> and leaves \<open>[2]\<close> for \<open>a\<close> and \<open>[4]\<close> for \<open>b\<close>. The
  second run, on the same assignment with the same arcs, removes \<open>2\<close> from the list of
  \<open>a\<close> and returns \<open>False\<close>. At the instance \<open>a\<close> in \<open>[1, 2, 3]\<close>, \<open>b\<close> in \<open>[3]\<close>,
  \<open>a = b\<close>, both runs return \<open>True\<close>; the first leaves \<open>[2, 3]\<close> for \<open>a\<close> and the
  second removes \<open>2\<close>. In both, \<open>revise\<close> removes a value from the list it iterates in
  the first run and so never examines the value after it; the second run finds it.
\<close>

theorem inference_second_run_removes:
  "deepcopy (domains equal_csp) equal_heap =
     ([(''a'', 2), (''b'', 3)], [[1, 2], [3, 4], [1, 2], [3, 4]]) \<and>
   inference equal_csp [(''a'', 2), (''b'', 3)] (get_all_arcs equal_csp)
       [[1, 2], [3, 4], [1, 2], [3, 4]]
     = Some (Inr (True, [[1, 2], [3, 4], [2], [4]])) \<and>
   inference equal_csp [(''a'', 2), (''b'', 3)] (get_all_arcs equal_csp)
       [[1, 2], [3, 4], [2], [4]]
     = Some (Inr (False, [[1, 2], [3, 4], [], [4]])) \<and>
   deepcopy (domains skip_csp) skip_heap =
     ([(''a'', 2), (''b'', 3)], [[1, 2, 3], [3], [1, 2, 3], [3]]) \<and>
   inference skip_csp [(''a'', 2), (''b'', 3)] (get_all_arcs skip_csp)
       [[1, 2, 3], [3], [1, 2, 3], [3]]
     = Some (Inr (True, [[1, 2, 3], [3], [2, 3], [3]])) \<and>
   inference skip_csp [(''a'', 2), (''b'', 3)] (get_all_arcs skip_csp)
       [[1, 2, 3], [3], [2, 3], [3]]
     = Some (Inr (True, [[1, 2, 3], [3], [3], [3]]))"
  by (simp add: eval_simps equal_csp_def equal_heap_def skip_csp_def skip_heap_def)

text \<open>
  C1 at the instance \<open>a\<close> in \<open>[1, 2, 3]\<close>, \<open>b\<close> in \<open>[3]\<close>, \<open>a = b\<close>, on the deep copy
  of the domains (its lists are at 2 and 3 of the heap): \<open>inference\<close> over all arcs
  returns \<open>True\<close> and leaves \<open>[2, 3]\<close> for \<open>a\<close>, where \<open>2\<close> has no legal partner in
  the list of \<open>b\<close>. \<open>revise\<close> removes \<open>1\<close> from the list it iterates; the iterator
  then stands at index 1 of \<open>[2, 3]\<close>, so \<open>2\<close> is never examined.
\<close>

theorem inference_leaves_unsupported_value:
  "get_all_arcs skip_csp = [(''a'', ''b''), (''b'', ''a'')] \<and>
   deepcopy (domains skip_csp) skip_heap =
     ([(''a'', 2), (''b'', 3)], [[1, 2, 3], [3], [1, 2, 3], [3]]) \<and>
   inference skip_csp [(''a'', 2), (''b'', 3)] (get_all_arcs skip_csp)
       [[1, 2, 3], [3], [1, 2, 3], [3]]
     = Some (Inr (True, [[1, 2, 3], [3], [2, 3], [3]])) \<and>
   \<not> arc_consistent skip_csp [(''a'', 2), (''b'', 3)] [[1, 2, 3], [3], [2, 3], [3]] ''a'' ''b''"
  by (simp add: eval_simps skip_csp_def skip_heap_def arc_consistent_def legal_pairs_def)

section \<open>Backtracking search on the example instances\<close>

text \<open>
  C2 at the instance \<open>a\<close> in \<open>[1, 2]\<close>, \<open>b\<close> in \<open>[3, 4]\<close>, \<open>a = b\<close>:
  \<open>backtracking_search\<close> returns the assignment \<open>a = 2\<close>, \<open>b = 4\<close> (the returned
  dictionary refers to the lists at 2 and 3 of the final heap), although the arc
  \<open>(a, b)\<close> is declared and its set of legal pairs is empty. Each \<open>revise\<close> removes
  the first value and skips the second, so both lists reach length one without being
  emptied, and \<open>backtrack\<close> returns at once.
\<close>

theorem backtracking_search_returns_illegal_pair:
  "backtracking_search equal_csp equal_heap
     = Some (Inr (Solution [(''a'', 2), (''b'', 3)], [[1, 2], [3, 4], [2], [4]])) \<and>
   get_all_arcs equal_csp = [(''a'', ''b''), (''b'', ''a'')] \<and>
   legal_pairs equal_csp ''a'' ''b'' = Some []"
  by (simp add: eval_simps equal_csp_def equal_heap_def legal_pairs_def)

text \<open>
  C3 at the instance of the claim, two variables with domain \<open>[1]\<close> and the
  all-different constraint: the first \<open>inference\<close> empties the list of \<open>a\<close> and returns
  \<open>False\<close>, which \<open>backtracking_search\<close> does not look at. In \<open>backtrack\<close> the
  assignment is not finished, no list is longer than one, so
  \<open>select_unassigned_variable\<close> returns \<open>None\<close> and \<open>assignment[variable]\<close> raises
  \<open>KeyError\<close>.
\<close>

theorem backtracking_search_infeasible_raises:
  "backtracking_search diff_csp diff_heap = Some (Inl KeyError)"
  by (simp add: eval_simps diff_csp_def diff_heap_def)

section \<open>The search leaves the lists of the instance alone\<close>

lemma map_of_snd_mem: "map_of d k = Some r \<Longrightarrow> r \<in> snd ` set d"
  by (metis image_eqI map_of_SomeD snd_conv)

lemma setitem_mem: "(k', r) \<in> set (setitem k v d) \<Longrightarrow> r = v \<or> (k', r) \<in> set d"
  by (induction d) (auto split: if_splits)

lemma setitem_refs: "snd ` set (setitem k v d) \<subseteq> insert v (snd ` set d)"
proof
  fix r assume "r \<in> snd ` set (setitem k v d)"
  then obtain k' where "(k', r) \<in> set (setitem k v d)" by auto
  from setitem_mem[OF this] show "r \<in> insert v (snd ` set d)" by force
qed

lemma setitem_keys: "k \<in> fst ` set d \<Longrightarrow> map fst (setitem k v d) = map fst d"
proof (induction d)
  case Nil
  then show ?case by simp
next
  case (Cons a d)
  show ?case
  proof (cases "fst a = k")
    case True
    then show ?thesis by (cases a) simp
  next
    case False
    with Cons.prems have "k \<in> fst ` set d" by auto
    with Cons.IH False show ?thesis by (cases a) simp
  qed
qed

lemma map_of_setitem: "map_of (setitem k v d) = (map_of d)(k \<mapsto> v)"
  by (induction d) auto

lemma take_append_one:
  assumes "take (Suc (length h)) h1 = h @ [x]"
  shows "take (length h) h1 = h"
proof -
  have "take (length h) (take (Suc (length h)) h1) = take (length h) h1"
    by (simp add: min_def)
  with assms show ?thesis by simp
qed

lemma deepcopy_items_frame:
  assumes "deepcopy_items memo d h = (d', h')" and "\<forall>r' \<in> snd ` set memo. r' < length h"
  shows "length h \<le> length h' \<and> take (length h) h' = h \<and> map fst d' = map fst d \<and>
     (\<forall>r' \<in> snd ` set d'. r' < length h' \<and> (length h \<le> r' \<or> r' \<in> snd ` set memo))"
  using assms
proof (induction d arbitrary: memo h d' h')
  case Nil
  then show ?case by simp
next
  case (Cons kr d)
  obtain k r where kr: "kr = (k, r)" by (cases kr)
  show ?case
  proof (cases "map_of memo r")
    case (Some r')
    obtain d1 h1 where rec: "deepcopy_items memo d h = (d1, h1)"
      by (cases "deepcopy_items memo d h")
    with Cons.prems(1) Some have d': "d' = (k, r') # d1" and h': "h' = h1"
      by (simp_all add: kr)
    note ih = Cons.IH[OF rec Cons.prems(2)]
    from Some have m: "r' \<in> snd ` set memo" by (rule map_of_snd_mem)
    with Cons.prems(2) have "r' < length h" by blast
    with ih have "r' < length h1" by simp
    with ih m show ?thesis by (simp add: d' h' kr)
  next
    case None
    let ?memo = "(r, length h) # memo" and ?h = "h @ [h ! r]"
    obtain d1 h1 where rec: "deepcopy_items ?memo d ?h = (d1, h1)"
      by (cases "deepcopy_items ?memo d ?h")
    with Cons.prems(1) None have d': "d' = (k, length h) # d1" and h': "h' = h1"
      by (simp_all add: kr)
    have "\<forall>r' \<in> snd ` set ?memo. r' < length ?h"
      using Cons.prems(2) by auto
    note ih = Cons.IH[OF rec this]
    from ih have len: "Suc (length h) \<le> length h1" by simp
    from ih have "take (Suc (length h)) h1 = h @ [h ! r]" by simp
    then have tk: "take (length h) h1 = h" by (rule take_append_one)
    have refs: "\<forall>r' \<in> snd ` set d1. r' < length h1 \<and> (length h \<le> r' \<or> r' \<in> snd ` set memo)"
    proof
      fix r' assume "r' \<in> snd ` set d1"
      with ih have "r' < length h1" and "length ?h \<le> r' \<or> r' \<in> snd ` set ?memo" by auto
      then show "r' < length h1 \<and> (length h \<le> r' \<or> r' \<in> snd ` set memo)" by auto
    qed
    from ih have "map fst d1 = map fst d" by simp
    with len tk refs show ?thesis by (auto simp: d' h' kr)
  qed
qed

lemma deepcopy_frame:
  assumes "deepcopy d h = (d', h')"
  shows "length h \<le> length h'" and "take (length h) h' = h" and "map fst d' = map fst d"
    and "\<forall>r' \<in> snd ` set d'. length h \<le> r' \<and> r' < length h'"
proof -
  from assms have "deepcopy_items [] d h = (d', h')" by (simp add: deepcopy_def)
  from deepcopy_items_frame[OF this] have
    *: "length h \<le> length h' \<and> take (length h) h' = h \<and> map fst d' = map fst d \<and>
     (\<forall>r' \<in> snd ` set d'. r' < length h' \<and> (length h \<le> r' \<or> r' \<in> snd ` set []))"
    by simp
  from * show "length h \<le> length h'" by simp
  from * show "take (length h) h' = h" by simp
  from * show "map fst d' = map fst d" by simp
  from * show "\<forall>r' \<in> snd ` set d'. length h \<le> r' \<and> r' < length h'" by auto
qed

lemma take_nth_eq:
  assumes "take n h' = h" and "r < n"
  shows "h' ! r = h ! r"
  using assms by (metis nth_take)

lemma inference_frame:
  assumes "\<forall>r \<in> snd ` set asg. r < length h" and "inference c asg queue h = Some (Inr (b, h'))"
  shows "length h' = length h \<and> (\<forall>r. r \<notin> snd ` set asg \<longrightarrow> h' ! r = h ! r)"
  using assms
proof (induction "heap_size h" arbitrary: h queue rule: less_induct)
  case less
  from less.prems(2) show ?case
  proof (induction queue)
    case Nil
    then show ?case by (simp add: inference_Nil)
  next
    case (Cons a rest)
    obtain i j where a: "a = (i, j)" by (cases a)
    show ?case
    proof (cases "revise c asg i j h")
      case (Inl e)
      with Cons.prems show ?thesis by (simp add: a inference_Cons)
    next
      case (Inr p)
      obtain rv h1 where p: "p = (rv, h1)" by (cases p)
      note rev = Inr[unfolded p]
      show ?thesis
      proof (cases rv)
        case False
        from revise_effect(4)[OF rev less.prems(1) False] have "h1 = h" .
        with Cons.prems rev False have "inference c asg rest h = Some (Inr (b, h'))"
          by (simp add: a inference_Cons)
        then show ?thesis by (rule Cons.IH)
      next
        case True
        from revise_effect(3)[OF rev less.prems(1) True] have lt: "heap_size h1 < heap_size h" .
        from revise_effect(1)[OF rev less.prems(1)] have len: "length h1 = length h" .
        with less.prems(1) have ok: "\<forall>r \<in> snd ` set asg. r < length h1" by simp
        from revise_effect(5)[OF rev less.prems(1)] obtain ri where
          ri: "map_of asg i = Some ri" and fr: "\<forall>r. r \<noteq> ri \<longrightarrow> h1 ! r = h ! r" by blast
        from ri have mem: "ri \<in> snd ` set asg" by (rule map_of_snd_mem)
        have fr1: "\<forall>r. r \<notin> snd ` set asg \<longrightarrow> h1 ! r = h ! r"
          using fr mem by auto
        show ?thesis
        proof (cases "length (h1 ! ri) = 0")
          case True
          with Cons.prems rev \<open>rv\<close> ri have "b = False" and "h' = h1"
            by (simp_all add: a inference_Cons getitem_def)
          with len fr1 show ?thesis by simp
        next
          case False
          with Cons.prems rev \<open>rv\<close> ri obtain q where
            "inference c asg q h1 = Some (Inr (b, h'))"
            by (auto simp: a inference_Cons getitem_def split: sum.splits)
          from less.hyps[OF lt ok this] len fr1 show ?thesis by simp
        qed
      qed
    qed
  qed
qed

lemma remove_value_frame:
  assumes "remove_value asg variable x h = Inr h'"
  shows "length h' = length h \<and> (\<forall>r. r \<notin> snd ` set asg \<longrightarrow> h' ! r = h ! r)"
proof -
  from assms obtain r where r: "map_of asg variable = Some r"
    and h': "h' = h[r := remove1 x (h ! r)]"
    by (auto simp: remove_value_def getitem_def split: option.splits if_splits)
  from r have "r \<in> snd ` set asg" by (rule map_of_snd_mem)
  then have "\<forall>ra. ra \<notin> snd ` set asg \<longrightarrow> r \<noteq> ra" by blast
  then show ?thesis by (simp add: h')
qed

lemma keeps_refl: "keeps n h h"
  by (simp add: keeps_def)

lemma keeps_trans: "keeps n h h1 \<Longrightarrow> keeps n h1 h2 \<Longrightarrow> keeps n h h2"
  by (simp add: keeps_def)

lemma keeps_length: "keeps n h h' \<Longrightarrow> length h \<le> length h'"
  by (simp add: keeps_def)

lemma keeps_append: "n \<le> length h \<Longrightarrow> keeps n h (h @ xs)"
  by (simp add: keeps_def)

lemma keeps_deepcopy:
  assumes "deepcopy d h = (d', h')" and "n \<le> length h"
  shows "keeps n h h'"
proof -
  from deepcopy_frame(2)[OF assms(1)] have "take n (take (length h) h') = take n h" by simp
  with assms(2) have "take n h' = take n h" by (simp add: min_def)
  with deepcopy_frame(1)[OF assms(1)] show ?thesis by (simp add: keeps_def)
qed

lemma keeps_cells:
  assumes "length h' = length h" and "\<forall>r. r \<notin> S \<longrightarrow> h' ! r = h ! r"
    and "\<forall>r \<in> S. n \<le> r" and "n \<le> length h"
  shows "keeps n h h'"
proof -
  have "take n h' = take n h"
  proof (rule nth_take_lemma)
    show "n \<le> length h'" using assms(1,4) by simp
    show "n \<le> length h" by (rule assms(4))
    fix i
    show "i < n \<longrightarrow> h' ! i = h ! i"
    proof
      assume "i < n"
      with assms(3) have "i \<notin> S" by auto
      with assms(2) show "h' ! i = h ! i" by simp
    qed
  qed
  with assms(1) show ?thesis by (simp add: keeps_def)
qed

lemma keeps_inference:
  assumes "inference c asg queue h = Some (Inr (b, h'))"
    and "\<forall>r \<in> snd ` set asg. n \<le> r \<and> r < length h" and "n \<le> length h"
  shows "keeps n h h'" and "length h' = length h"
proof -
  from assms(2) have ok: "\<forall>r \<in> snd ` set asg. r < length h" by blast
  note fr = inference_frame[OF ok assms(1)]
  from fr show "length h' = length h" by simp
  from assms(2) have "\<forall>r \<in> snd ` set asg. n \<le> r" by blast
  with fr assms(3) show "keeps n h h'" by (intro keeps_cells[where S = "snd ` set asg"]) simp_all
qed

lemma keeps_remove_value:
  assumes "remove_value asg variable x h = Inr h'"
    and "\<forall>r \<in> snd ` set asg. n \<le> r \<and> r < length h" and "n \<le> length h"
  shows "keeps n h h'" and "length h' = length h"
proof -
  note fr = remove_value_frame[OF assms(1)]
  from fr show "length h' = length h" by simp
  from assms(2) have "\<forall>r \<in> snd ` set asg. n \<le> r" by blast
  with fr assms(3) show "keeps n h h'" by (intro keeps_cells[where S = "snd ` set asg"]) simp_all
qed

lemma backtrack_at_keeps_aux:
  assumes "backtrack_at c pt asg h = Some y"
  shows "\<forall>n res asg' h'. y = Inr (res, asg', h') \<longrightarrow> n \<le> length h \<longrightarrow>
           (\<forall>r \<in> snd ` set asg. n \<le> r \<and> r < length h) \<longrightarrow> keeps n h h'"
proof (rule backtrack_at.raw_induct[where P = "\<lambda>c pt asg h y.
          \<forall>n res asg' h'. y = Inr (res, asg', h') \<longrightarrow> n \<le> length h \<longrightarrow>
           (\<forall>r \<in> snd ` set asg. n \<le> r \<and> r < length h) \<longrightarrow> keeps n h h'", OF _ assms],
       goal_cases)
  case (1 f c pt asg h y)
  note IH = 1(1) and body = 1(2)
  show ?case
  proof (intro allI impI)
    fix n res asg' hf
    assume y: "y = Inr (res, asg', hf)" and n: "n \<le> length h"
      and refs: "\<forall>r \<in> snd ` set asg. n \<le> r \<and> r < length h"
    show "keeps n h hf"
    proof (cases pt)
      case Entry
      note b = body[unfolded Entry point.case(1)]
      from b y consider (fin) "hf = h"
        | (loop) variable vals where "f c (Loop variable vals 0) asg h = Some y"
        by (auto split: if_splits option.splits sum.splits)
      then show ?thesis
      proof cases
        case fin
        then show ?thesis by (simp add: keeps_refl)
      next
        case loop
        from IH[OF loop] y n refs show ?thesis by blast
      qed
    next
      case (Loop variable vals idx)
      note b = body[unfolded Loop point.case(2)]
      let ?v = "h ! vals ! idx"
      let ?asg1 = "setitem variable (length h) asg"
      let ?h1 = "h @ [[?v]]"
      have refs1: "\<forall>r \<in> snd ` set ?asg1. n \<le> r \<and> r < length ?h1"
      proof
        fix r assume "r \<in> snd ` set ?asg1"
        with setitem_refs[of variable "length h" asg]
        have "r \<in> insert (length h) (snd ` set asg)" by (rule subsetD)
        then have "r = length h \<or> r \<in> snd ` set asg" by simp
        with refs n show "n \<le> r \<and> r < length ?h1" by auto
      qed
      consider
          (exhausted) "hf = h"
        | (rejected) h'' where "remove_value asg variable ?v h = Inr h''"
            "f c (Loop variable vals (idx + 1)) asg h'' = Some y"
        | (wipeout) assignmentCopy h2 h3 h'' where
            "deepcopy ?asg1 ?h1 = (assignmentCopy, h2)"
            "inference c assignmentCopy (get_all_arcs c) h2 = Some (Inr (False, h3))"
            "remove_value ?asg1 variable ?v h3 = Inr h''"
            "f c (Loop variable vals (idx + 1)) ?asg1 h'' = Some y"
        | (found) assignmentCopy h2 h3 frame where
            "deepcopy ?asg1 ?h1 = (assignmentCopy, h2)"
            "inference c assignmentCopy (get_all_arcs c) h2 = Some (Inr (True, h3))"
            "f c Entry assignmentCopy h3 = Some (Inr (res, frame, hf))"
        | (failed) assignmentCopy h2 h3 res4 frame h4 h'' where
            "deepcopy ?asg1 ?h1 = (assignmentCopy, h2)"
            "inference c assignmentCopy (get_all_arcs c) h2 = Some (Inr (True, h3))"
            "f c Entry assignmentCopy h3 = Some (Inr (res4, frame, h4))"
            "remove_value ?asg1 variable ?v h4 = Inr h''"
            "f c (Loop variable vals (idx + 1)) ?asg1 h'' = Some y"
      proof (cases "idx < length (h ! vals)")
        case False
        with b y have "hf = h" by simp
        then show ?thesis by (rule that(1))
      next
        case lt: True
        from b lt y obtain consistent where
          cl: "consistent_loop c h variable ?v asg = Inr consistent"
          by (cases "consistent_loop c h variable ?v asg") simp_all
        show ?thesis
        proof (cases consistent)
          case False
          with b lt cl y obtain h'' where "remove_value asg variable ?v h = Inr h''"
            and "f c (Loop variable vals (idx + 1)) asg h'' = Some y"
            by (cases "remove_value asg variable ?v h") (simp_all add: truthy_def)
          then show ?thesis by (rule that(2))
        next
          case True
          obtain assignmentCopy h2 where dc: "deepcopy ?asg1 ?h1 = (assignmentCopy, h2)"
            by (cases "deepcopy ?asg1 ?h1")
          from b lt cl True dc y obtain ac3 where
            inf: "inference c assignmentCopy (get_all_arcs c) h2 = Some ac3"
            by (cases "inference c assignmentCopy (get_all_arcs c) h2") simp_all
          from b lt cl True dc inf y obtain inferences h3 where
            ac3: "ac3 = Inr (inferences, h3)"
            by (cases ac3) auto
          show ?thesis
          proof (cases inferences)
            case False
            with b lt cl True dc inf ac3 y obtain h'' where
              "remove_value ?asg1 variable ?v h3 = Inr h''"
              and "f c (Loop variable vals (idx + 1)) ?asg1 h'' = Some y"
              by (cases "remove_value ?asg1 variable ?v h3") (simp_all add: truthy_def)
            with dc inf ac3 False show ?thesis by (intro that(3)) simp_all
          next
            case inferences: True
            from b lt cl True dc inf ac3 inferences y obtain sub where
              sub: "f c Entry assignmentCopy h3 = Some sub"
              by (cases "f c Entry assignmentCopy h3") simp_all
            from b lt cl True dc inf ac3 inferences sub y obtain res4 frame h4 where
              sub4: "sub = Inr (res4, frame, h4)"
              by (cases sub) auto
            show ?thesis
            proof (cases "truthy res4")
              case True
              with b lt cl \<open>consistent\<close> dc inf ac3 inferences sub sub4 y
              have "res4 = res" and "h4 = hf" by simp_all
              with dc inf ac3 inferences sub sub4 show ?thesis by (intro that(4)) simp_all
            next
              case False
              with b lt cl \<open>consistent\<close> dc inf ac3 inferences sub sub4 y obtain h'' where
                "remove_value ?asg1 variable ?v h4 = Inr h''"
                and "f c (Loop variable vals (idx + 1)) ?asg1 h'' = Some y"
                by (cases "remove_value ?asg1 variable ?v h4") simp_all
              with dc inf ac3 inferences sub sub4 show ?thesis by (intro that(5)) simp_all
            qed
          qed
        qed
      qed
      then show ?thesis
      proof cases
        case exhausted
        then show ?thesis by (simp add: keeps_refl)
      next
        case rejected
        note k1 = keeps_remove_value[OF rejected(1) refs n]
        from refs k1(2) have "\<forall>r \<in> snd ` set asg. n \<le> r \<and> r < length h''" by simp
        moreover from n k1(2) have "n \<le> length h''" by simp
        ultimately have "keeps n h'' hf" using IH[OF rejected(2)] y by blast
        with k1(1) show ?thesis by (rule keeps_trans)
      next
        case wipeout
        have n1: "n \<le> length ?h1" using n by simp
        have k1: "keeps n h ?h1" using n by (rule keeps_append)
        have k2: "keeps n ?h1 h2" using wipeout(1) n1 by (rule keeps_deepcopy)
        from deepcopy_frame(4)[OF wipeout(1)] n1
        have refsc: "\<forall>r \<in> snd ` set assignmentCopy. n \<le> r \<and> r < length h2" by auto
        have n2: "n \<le> length h2" using n1 keeps_length[OF k2] by simp
        note k3 = keeps_inference[OF wipeout(2) refsc n2]
        have len3: "length ?h1 \<le> length h3" using keeps_length[OF k2] k3(2) by simp
        with refs1 have refs3: "\<forall>r \<in> snd ` set ?asg1. n \<le> r \<and> r < length h3" by auto
        have n3: "n \<le> length h3" using n2 k3(2) by simp
        note k4 = keeps_remove_value[OF wipeout(3) refs3 n3]
        from refs3 k4(2) have "\<forall>r \<in> snd ` set ?asg1. n \<le> r \<and> r < length h''" by simp
        moreover from n3 k4(2) have "n \<le> length h''" by simp
        ultimately have k5: "keeps n h'' hf" using IH[OF wipeout(4)] y by blast
        from k1 k2 k3(1) k4(1) k5 show ?thesis by (blast intro: keeps_trans)
      next
        case found
        have n1: "n \<le> length ?h1" using n by simp
        have k1: "keeps n h ?h1" using n by (rule keeps_append)
        have k2: "keeps n ?h1 h2" using found(1) n1 by (rule keeps_deepcopy)
        from deepcopy_frame(4)[OF found(1)] n1
        have refsc: "\<forall>r \<in> snd ` set assignmentCopy. n \<le> r \<and> r < length h2" by auto
        have n2: "n \<le> length h2" using n1 keeps_length[OF k2] by simp
        note k3 = keeps_inference[OF found(2) refsc n2]
        from refsc k3(2) have refsc3: "\<forall>r \<in> snd ` set assignmentCopy. n \<le> r \<and> r < length h3"
          by simp
        have n3: "n \<le> length h3" using n2 k3(2) by simp
        from IH[OF found(3)] refsc3 n3 have k4: "keeps n h3 hf" by blast
        from k1 k2 k3(1) k4 show ?thesis by (blast intro: keeps_trans)
      next
        case failed
        have n1: "n \<le> length ?h1" using n by simp
        have k1: "keeps n h ?h1" using n by (rule keeps_append)
        have k2: "keeps n ?h1 h2" using failed(1) n1 by (rule keeps_deepcopy)
        from deepcopy_frame(4)[OF failed(1)] n1
        have refsc: "\<forall>r \<in> snd ` set assignmentCopy. n \<le> r \<and> r < length h2" by auto
        have n2: "n \<le> length h2" using n1 keeps_length[OF k2] by simp
        note k3 = keeps_inference[OF failed(2) refsc n2]
        from refsc k3(2) have refsc3: "\<forall>r \<in> snd ` set assignmentCopy. n \<le> r \<and> r < length h3"
          by simp
        have n3: "n \<le> length h3" using n2 k3(2) by simp
        from IH[OF failed(3)] refsc3 n3 have k4: "keeps n h3 h4" by blast
        have len4: "length ?h1 \<le> length h4"
          using keeps_length[OF k2] k3(2) keeps_length[OF k4] by simp
        with refs1 have refs4: "\<forall>r \<in> snd ` set ?asg1. n \<le> r \<and> r < length h4" by auto
        have n4: "n \<le> length h4" using n3 keeps_length[OF k4] by simp
        note k5 = keeps_remove_value[OF failed(4) refs4 n4]
        from refs4 k5(2) have "\<forall>r \<in> snd ` set ?asg1. n \<le> r \<and> r < length h''" by simp
        moreover from n4 k5(2) have "n \<le> length h''" by simp
        ultimately have k6: "keeps n h'' hf" using IH[OF failed(5)] y by blast
        from k1 k2 k3(1) k4 k5(1) k6 show ?thesis by (blast intro: keeps_trans)
      qed
    qed
  qed
qed

text \<open>
  C10: \<open>backtracking_search\<close> leaves the CSP instance unchanged. The methods of the
  search assign to no attribute of \<open>self\<close> and call no mutating method on
  \<open>self.variables\<close>, \<open>self.domains\<close>, \<open>self.constraints\<close> or a list of pairs; they
  only read them, which is why the record \<open>c\<close> is an argument that no function returns.
  What the search mutates are list objects. Whenever the call returns, every list object
  that existed before the call, the lists of \<open>self.domains\<close> among them, holds the
  elements it held before: the assignment is a deep copy, every later assignment is a copy
  or a new one-element list, and only lists of these assignments are written.
\<close>

theorem backtracking_search_frame:
  assumes "backtracking_search c h = Some (Inr (res, h'))"
  shows "length h \<le> length h' \<and> take (length h) h' = h"
proof -
  obtain asg h1 where dc: "deepcopy (domains c) h = (asg, h1)"
    by (cases "deepcopy (domains c) h")
  from assms dc obtain ac3 where inf: "inference c asg (get_all_arcs c) h1 = Some ac3"
    by (cases "inference c asg (get_all_arcs c) h1") (simp_all add: backtracking_search_unfold)
  from assms dc inf obtain b h2 where ac3: "ac3 = Inr (b, h2)"
    by (cases ac3) (auto simp: backtracking_search_unfold)
  from assms dc inf ac3 obtain y where bt: "backtrack_at c Entry asg h2 = Some y"
    by (cases "backtrack_at c Entry asg h2") (simp_all add: backtracking_search_unfold backtrack_def)
  from assms dc inf ac3 bt obtain frame where y: "y = Inr (res, frame, h')"
    by (cases y) (auto simp: backtracking_search_unfold backtrack_def)
  let ?n = "length h"
  have k1: "keeps ?n h h1" using dc by (rule keeps_deepcopy) simp
  have refs1: "\<forall>r \<in> snd ` set asg. ?n \<le> r \<and> r < length h1"
    by (rule deepcopy_frame(4)[OF dc])
  have n1: "?n \<le> length h1" by (rule keeps_length[OF k1])
  note k2 = keeps_inference[OF inf[unfolded ac3] refs1 n1]
  from refs1 k2(2) have refs2: "\<forall>r \<in> snd ` set asg. ?n \<le> r \<and> r < length h2" by simp
  from n1 k2(2) have n2: "?n \<le> length h2" by simp
  from backtrack_at_keeps_aux[OF bt] y n2 refs2 have k3: "keeps ?n h2 h'" by blast
  from k1 k2(1) k3 have "keeps ?n h h'" by (blast intro: keeps_trans)
  then show ?thesis by (simp add: keeps_def)
qed

lemma free_search:
  "backtracking_search free_csp free_heap = Some (Inr (Solution [(''a'', 8), (''b'', 9)],
        [[1, 2], [3, 4], [1, 2], [3, 4], [1], [1], [3, 4], [3], [1], [3]]))"
  by (simp add: eval_simps free_csp_def free_heap_def)

theorem backtracking_search_frame_witness:
  "backtracking_search free_csp free_heap = Some (Inr (Solution [(''a'', 8), (''b'', 9)],
        [[1, 2], [3, 4], [1, 2], [3, 4], [1], [1], [3, 4], [3], [1], [3]])) \<and>
   take (length free_heap) [[1, 2], [3, 4], [1, 2], [3, 4], [1], [1], [3, 4], [3], [1], [3]]
     = free_heap"
  using backtracking_search_frame[OF free_search] free_search by simp

section \<open>The loop of \<open>backtrack\<close> over the candidates\<close>

lemma consistent_loop_heap:
  assumes "\<forall>(k, r) \<in> set d. k \<noteq> variable \<longrightarrow> h' ! r = h ! r"
  shows "consistent_loop c h' variable v d = consistent_loop c h variable v d"
  using assms
proof (induction d)
  case Nil
  show ?case by simp
next
  case (Cons a d)
  obtain k r where a: "a = (k, r)" by (cases a)
  from Cons.prems have tl: "\<forall>(k, r) \<in> set d. k \<noteq> variable \<longrightarrow> h' ! r = h ! r" by simp
  note ih = Cons.IH[OF tl]
  show ?case
  proof (cases "k = variable")
    case True
    then show ?thesis by (simp add: a ih)
  next
    case False
    with Cons.prems have "h' ! r = h ! r" by (simp add: a)
    with False show ?thesis by (simp add: a ih split: sum.splits option.splits)
  qed
qed

lemma consistent_loop_setitem:
  "consistent_loop c h variable v (setitem variable rn d) = consistent_loop c h variable v d"
proof (induction d)
  case Nil
  show ?case by simp
next
  case (Cons a d)
  obtain k r where a: "a = (k, r)" by (cases a)
  show ?case
  proof (cases "k = variable")
    case True
    then show ?thesis by (simp add: a)
  next
    case False
    then show ?thesis by (simp add: a Cons.IH split: sum.splits option.splits)
  qed
qed

lemma keeps_nth:
  assumes "keeps n h h'" and "r < n" and "n \<le> length h"
  shows "h' ! r = h ! r"
proof -
  from assms(1) have "take n h' = take n h" by (simp add: keeps_def)
  then have "take n h' ! r = take n h ! r" by simp
  with assms(2) show ?thesis by simp
qed

text \<open>One round of the loop of \<open>backtrack\<close> for a candidate that passes the pre-check.\<close>

lemma backtrack_at_Loop_round:
  assumes ret: "backtrack_at c (Loop variable vals idx) asg h = Some (Inr (res, asg', hf))"
    and lt: "idx < length (h ! vals)"
    and cl: "consistent_loop c h variable (h ! vals ! idx) asg = Inr True"
    and valid: "\<forall>r \<in> snd ` set asg. r < length h"
  shows "truthy res \<or>
    (\<exists>hA. keeps (Suc (length h)) (h @ [[h ! vals ! idx]]) hA \<and>
       backtrack_at c (Loop variable vals (idx + 1)) (setitem variable (length h) asg)
         (hA[length h := []]) = Some (Inr (res, asg', hf)))"
proof -
  let ?v = "h ! vals ! idx"
  let ?asg1 = "setitem variable (length h) asg"
  let ?h1 = "h @ [[?v]]"
  note b = trans[OF backtrack_at_Loop[symmetric] ret]
  obtain assignmentCopy h2 where dc: "deepcopy ?asg1 ?h1 = (assignmentCopy, h2)"
    by (cases "deepcopy ?asg1 ?h1")
  from b lt cl dc obtain ac3 where
    inf: "inference c assignmentCopy (get_all_arcs c) h2 = Some ac3"
    by (cases "inference c assignmentCopy (get_all_arcs c) h2") simp_all
  from b lt cl dc inf obtain inferences h3 where ac3: "ac3 = Inr (inferences, h3)"
    by (cases ac3) auto
  have n1: "Suc (length h) \<le> length ?h1" by simp
  have k2: "keeps (Suc (length h)) ?h1 h2" using dc n1 by (rule keeps_deepcopy)
  from deepcopy_frame(4)[OF dc]
  have refsc: "\<forall>r \<in> snd ` set assignmentCopy. Suc (length h) \<le> r \<and> r < length h2" by auto
  have n2: "Suc (length h) \<le> length h2" using keeps_length[OF k2] by simp
  note k3 = keeps_inference[OF inf[unfolded ac3] refsc n2]
  have k23: "keeps (Suc (length h)) ?h1 h3" using k2 k3(1) by (rule keeps_trans)
  have m1: "map_of ?asg1 variable = Some (length h)" by (simp add: map_of_setitem)
  have rm: "remove_value ?asg1 variable ?v hA = Inr (hA[length h := []])"
    if "keeps (Suc (length h)) ?h1 hA" for hA
  proof -
    from keeps_nth[OF that, of "length h"] have "hA ! length h = [?v]" by simp
    then show ?thesis by (simp add: remove_value_def getitem_def m1)
  qed
  show ?thesis
  proof (cases inferences)
    case False
    from b lt cl dc inf ac3 False rm[OF k23]
    have "backtrack_at c (Loop variable vals (idx + 1)) ?asg1 (h3[length h := []])
        = Some (Inr (res, asg', hf))"
      by (simp add: truthy_def)
    with k23 show ?thesis by blast
  next
    case True
    from b lt cl dc inf ac3 True obtain sub where
      sub: "backtrack_at c Entry assignmentCopy h3 = Some sub"
      by (cases "backtrack_at c Entry assignmentCopy h3") simp_all
    from b lt cl dc inf ac3 True sub obtain res4 frame h4 where
      sub4: "sub = Inr (res4, frame, h4)"
      by (cases sub) auto
    from refsc k3(2) have refsc3: "\<forall>r \<in> snd ` set assignmentCopy. Suc (length h) \<le> r \<and> r < length h3"
      by simp
    have n3: "Suc (length h) \<le> length h3" using n2 k3(2) by simp
    from backtrack_at_keeps_aux[OF sub] sub4 n3 refsc3 have k4: "keeps (Suc (length h)) h3 h4"
      by blast
    have k234: "keeps (Suc (length h)) ?h1 h4" using k23 k4 by (rule keeps_trans)
    show ?thesis
    proof (cases "truthy res4")
      case t: True
      with b lt cl dc inf ac3 True sub sub4 have "res = res4" by simp
      with t show ?thesis by simp
    next
      case f: False
      with b lt cl dc inf ac3 True sub sub4 rm[OF k234]
      have "backtrack_at c (Loop variable vals (idx + 1)) ?asg1 (h4[length h := []])
          = Some (Inr (res, asg', hf))"
        by simp
      with k234 show ?thesis by blast
    qed
  qed
qed

lemma backtrack_loop_exhausts:
  assumes "backtrack_at c (Loop variable vals idx) asg h = Some (Inr (Failure, asg', h'))"
    and "\<forall>r \<in> snd ` set asg. r < length h" and "vals < length h"
    and "\<forall>v \<in> set (h ! vals). consistent_loop c h variable v asg = Inr True"
  shows "h' ! vals = h ! vals \<and>
     (if idx < length (h ! vals) then (\<exists>r. map_of asg' variable = Some r \<and> h' ! r = [])
      else asg' = asg \<and> h' = h)"
  using assms
proof (induction "length (h ! vals) - idx" arbitrary: idx asg h)
  case 0
  then have "\<not> idx < length (h ! vals)" by simp
  with "0.prems"(1) show ?case by (subst (asm) backtrack_at_Loop) simp
next
  case (Suc n)
  note ret = Suc.prems(1) and valid = Suc.prems(2) and vv = Suc.prems(3) and pre = Suc.prems(4)
  from Suc.hyps(2) have lt: "idx < length (h ! vals)" by simp
  let ?v = "h ! vals ! idx"
  let ?asg1 = "setitem variable (length h) asg"
  let ?h1 = "h @ [[?v]]"
  from lt have "?v \<in> set (h ! vals)" by simp
  with pre have cl: "consistent_loop c h variable ?v asg = Inr True" by blast
  from backtrack_at_Loop_round[OF ret lt cl valid] obtain hA where
    kA: "keeps (Suc (length h)) ?h1 hA"
    and rec: "backtrack_at c (Loop variable vals (idx + 1)) ?asg1 (hA[length h := []])
        = Some (Inr (Failure, asg', h'))"
    by (auto simp: truthy_def)
  let ?h2 = "hA[length h := []]"
  have lenA: "Suc (length h) \<le> length hA" using keeps_length[OF kA] by simp
  have old: "?h2 ! r = h ! r" if "r < length h" for r
  proof -
    from that have "hA ! r = ?h1 ! r" by (intro keeps_nth[OF kA]) simp_all
    with that show ?thesis by (simp add: nth_append)
  qed
  have cell: "?h2 ! vals = h ! vals" using vv by (rule old)
  have valid2: "\<forall>r \<in> snd ` set ?asg1. r < length ?h2"
  proof
    fix r assume "r \<in> snd ` set ?asg1"
    with setitem_refs[of variable "length h" asg]
    have "r \<in> insert (length h) (snd ` set asg)" by (rule subsetD)
    with valid lenA show "r < length ?h2" by auto
  qed
  have vv2: "vals < length ?h2" using vv lenA by simp
  have pre2: "\<forall>v \<in> set (?h2 ! vals). consistent_loop c ?h2 variable v ?asg1 = Inr True"
  proof
    fix v assume "v \<in> set (?h2 ! vals)"
    then have "v \<in> set (h ! vals)" by (simp only: cell)
    with pre have "consistent_loop c h variable v asg = Inr True" by blast
    moreover have "consistent_loop c ?h2 variable v asg = consistent_loop c h variable v asg"
    proof (rule consistent_loop_heap, clarify)
      fix k r assume "(k, r) \<in> set asg"
      then have "r \<in> snd ` set asg" by force
      with valid have "r < length h" by blast
      then show "?h2 ! r = h ! r" by (rule old)
    qed
    ultimately show "consistent_loop c ?h2 variable v ?asg1 = Inr True"
      by (simp only: consistent_loop_setitem)
  qed
  from Suc.hyps(2) have n: "n = length (?h2 ! vals) - (idx + 1)" by (simp add: cell)
  note ih = Suc.hyps(1)[OF n rec valid2 vv2 pre2]
  from ih have c1: "h' ! vals = h ! vals" by (simp only: cell)
  have c2: "\<exists>r. map_of asg' variable = Some r \<and> h' ! r = []"
  proof (cases "idx + 1 < length (?h2 ! vals)")
    case True
    with ih show ?thesis by simp
  next
    case False
    with ih have "asg' = ?asg1" and "h' = ?h2" by simp_all
    moreover have "map_of ?asg1 variable = Some (length h)" by (simp add: map_of_setitem)
    moreover have "?h2 ! length h = []" using lenA by simp
    ultimately show ?thesis by simp
  qed
  from c1 c2 lt show ?case by simp
qed

lemma try_candidate_keeps:
  assumes "try_candidate c variable v asg h = Some (Inr (res, hA))"
  shows "keeps (Suc (length h)) (h @ [[v]]) hA"
proof -
  let ?asg1 = "setitem variable (length h) asg"
  let ?h1 = "h @ [[v]]"
  note a = assms[unfolded try_candidate_def]
  obtain assignmentCopy h2 where dc: "deepcopy ?asg1 ?h1 = (assignmentCopy, h2)"
    by (cases "deepcopy ?asg1 ?h1")
  from a dc obtain ac3 where
    inf: "inference c assignmentCopy (get_all_arcs c) h2 = Some ac3"
    by (cases "inference c assignmentCopy (get_all_arcs c) h2") simp_all
  from a dc inf obtain inferences h3 where ac3: "ac3 = Inr (inferences, h3)"
    by (cases ac3) auto
  have n1: "Suc (length h) \<le> length ?h1" by simp
  have k2: "keeps (Suc (length h)) ?h1 h2" using dc n1 by (rule keeps_deepcopy)
  from deepcopy_frame(4)[OF dc]
  have refsc: "\<forall>r \<in> snd ` set assignmentCopy. Suc (length h) \<le> r \<and> r < length h2" by auto
  have n2: "Suc (length h) \<le> length h2" using keeps_length[OF k2] by simp
  note k3 = keeps_inference[OF inf[unfolded ac3] refsc n2]
  have k23: "keeps (Suc (length h)) ?h1 h3" using k2 k3(1) by (rule keeps_trans)
  show ?thesis
  proof (cases inferences)
    case False
    with a dc inf ac3 have "hA = h3" by simp
    with k23 show ?thesis by simp
  next
    case True
    from a dc inf ac3 True obtain sub where
      sub: "backtrack_at c Entry assignmentCopy h3 = Some sub"
      by (cases "backtrack_at c Entry assignmentCopy h3") (simp_all add: backtrack_def)
    from a dc inf ac3 True sub obtain res4 frame h4 where
      sub4: "sub = Inr (res4, frame, h4)"
      by (cases sub) (auto simp: backtrack_def)
    from refsc k3(2) have refsc3: "\<forall>r \<in> snd ` set assignmentCopy. Suc (length h) \<le> r \<and> r < length h3"
      by simp
    have n3: "Suc (length h) \<le> length h3" using n2 k3(2) by simp
    from backtrack_at_keeps_aux[OF sub] sub4 n3 refsc3 have k4: "keeps (Suc (length h)) h3 h4"
      by blast
    have k234: "keeps (Suc (length h)) ?h1 h4" using k23 k4 by (rule keeps_trans)
    from a dc inf ac3 True sub sub4 have "hA = h4" by (simp add: backtrack_def)
    with k234 show ?thesis by simp
  qed
qed

text \<open>
  One round of the loop of \<open>backtrack\<close> for a candidate that passes the pre-check is one
  attempt, followed by the loop at the next index when the attempt fails.
\<close>

lemma backtrack_at_Loop_try:
  assumes lt: "idx < length (h ! vals)"
    and cl: "consistent_loop c h variable (h ! vals ! idx) asg = Inr True"
  shows "backtrack_at c (Loop variable vals idx) asg h =
    (case try_candidate c variable (h ! vals ! idx) asg h of
       None \<Rightarrow> None
     | Some (Inl e) \<Rightarrow> Some (Inl e)
     | Some (Inr (res, hA)) \<Rightarrow>
         if truthy res then Some (Inr (res, setitem variable (length h) asg, hA))
         else backtrack_at c (Loop variable vals (idx + 1)) (setitem variable (length h) asg)
                (hA[length h := []]))"
proof -
  let ?v = "h ! vals ! idx"
  let ?asg1 = "setitem variable (length h) asg"
  let ?h1 = "h @ [[?v]]"
  have m1: "map_of ?asg1 variable = Some (length h)" by (simp add: map_of_setitem)
  have rm: "remove_value ?asg1 variable ?v hA = Inr (hA[length h := []])"
    if "try_candidate c variable ?v asg h = Some (Inr (res, hA))" for res hA
  proof -
    from keeps_nth[OF try_candidate_keeps[OF that], of "length h"] have "hA ! length h = [?v]" by simp
    then show ?thesis by (simp add: remove_value_def getitem_def m1)
  qed
  obtain assignmentCopy h2 where dc: "deepcopy ?asg1 ?h1 = (assignmentCopy, h2)"
    by (cases "deepcopy ?asg1 ?h1")
  show ?thesis
  proof (cases "inference c assignmentCopy (get_all_arcs c) h2")
    case None
    then have "try_candidate c variable ?v asg h = None" by (simp add: try_candidate_def dc)
    with None show ?thesis using lt cl dc by (subst backtrack_at_Loop) simp
  next
    case (Some ac3)
    show ?thesis
    proof (cases ac3)
      case (Inl e)
      with Some have "try_candidate c variable ?v asg h = Some (Inl e)" by (simp add: try_candidate_def dc)
      with Some Inl show ?thesis using lt cl dc by (subst backtrack_at_Loop) simp
    next
      case (Inr p)
      obtain inferences h3 where p: "p = (inferences, h3)" by (cases p)
      show ?thesis
      proof (cases inferences)
        case False
        with Some Inr p have att: "try_candidate c variable ?v asg h = Some (Inr (Failure, h3))"
          by (simp add: try_candidate_def dc)
        from Some Inr p False att rm[OF att] show ?thesis using lt cl dc
          by (subst backtrack_at_Loop) (simp add: truthy_def)
      next
        case True
        show ?thesis
        proof (cases "backtrack_at c Entry assignmentCopy h3")
          case None
          with Some Inr p True have att: "try_candidate c variable ?v asg h = None"
            by (simp add: try_candidate_def dc backtrack_def)
          from Some Inr p True None att show ?thesis using lt cl dc
            by (subst backtrack_at_Loop) simp
        next
          case sub: (Some sub)
          show ?thesis
          proof (cases sub)
            case (Inl e)
            with Some Inr p True sub have att: "try_candidate c variable ?v asg h = Some (Inl e)"
              by (simp add: try_candidate_def dc backtrack_def)
            from Some Inr p True sub Inl att show ?thesis using lt cl dc
              by (subst backtrack_at_Loop) simp
          next
            case r: (Inr q)
            obtain res4 frame h4 where q: "q = (res4, frame, h4)" by (cases q)
            from Some Inr p True sub r q
            have att: "try_candidate c variable ?v asg h = Some (Inr (res4, h4))"
              by (simp add: try_candidate_def dc backtrack_def)
            from Some Inr p True sub r q att rm[OF att] show ?thesis using lt cl dc
              by (subst backtrack_at_Loop) simp
          qed
        qed
      qed
    qed
  qed
qed

text \<open>The state in which the loop goes on after a failed attempt.\<close>

lemma after_failed_candidate:
  assumes kA: "keeps (Suc (length h)) (h @ [[v]]) hA"
    and valid: "\<forall>r \<in> snd ` set asg. r < length h" and vv: "vals < length h"
    and pre: "\<forall>v \<in> set (h ! vals). consistent_loop c h variable v asg = Inr True"
  shows "hA[length h := []] ! vals = h ! vals"
    and "\<forall>r \<in> snd ` set (setitem variable (length h) asg). r < length (hA[length h := []])"
    and "vals < length (hA[length h := []])"
    and "\<forall>v \<in> set (hA[length h := []] ! vals).
           consistent_loop c (hA[length h := []]) variable v (setitem variable (length h) asg)
             = Inr True"
proof -
  let ?asg1 = "setitem variable (length h) asg"
  let ?h1 = "h @ [[v]]"
  let ?h2 = "hA[length h := []]"
  have lenA: "Suc (length h) \<le> length hA" using keeps_length[OF kA] by simp
  have old: "?h2 ! r = h ! r" if "r < length h" for r
  proof -
    from that have "hA ! r = ?h1 ! r" by (intro keeps_nth[OF kA]) simp_all
    with that show ?thesis by (simp add: nth_append)
  qed
  show cell: "?h2 ! vals = h ! vals" using vv by (rule old)
  show "\<forall>r \<in> snd ` set ?asg1. r < length ?h2"
  proof
    fix r assume "r \<in> snd ` set ?asg1"
    with setitem_refs[of variable "length h" asg]
    have "r \<in> insert (length h) (snd ` set asg)" by (rule subsetD)
    with valid lenA show "r < length ?h2" by auto
  qed
  show "vals < length ?h2" using vv lenA by simp
  show "\<forall>v \<in> set (?h2 ! vals). consistent_loop c ?h2 variable v ?asg1 = Inr True"
  proof
    fix v assume "v \<in> set (?h2 ! vals)"
    then have "v \<in> set (h ! vals)" by (simp only: cell)
    with pre have "consistent_loop c h variable v asg = Inr True" by blast
    moreover have "consistent_loop c ?h2 variable v asg = consistent_loop c h variable v asg"
    proof (rule consistent_loop_heap, clarify)
      fix k r assume "(k, r) \<in> set asg"
      then have "r \<in> snd ` set asg" by force
      with valid have "r < length h" by blast
      then show "?h2 ! r = h ! r" by (rule old)
    qed
    ultimately show "consistent_loop c ?h2 variable v ?asg1 = Inr True"
      by (simp only: consistent_loop_setitem)
  qed
qed

lemma backtrack_loop_in_order:
  assumes "\<forall>r \<in> snd ` set asg. r < length h" and "vals < length h"
    and "\<forall>v \<in> set (h ! vals). consistent_loop c h variable v asg = Inr True"
  shows "backtrack_at c (Loop variable vals idx) asg h
    = tried_in_order c variable (drop idx (h ! vals)) asg h"
  using assms
proof (induction "length (h ! vals) - idx" arbitrary: idx asg h)
  case 0
  then have "\<not> idx < length (h ! vals)" by simp
  then show ?case by (subst backtrack_at_Loop) simp
next
  case (Suc n)
  note valid = Suc.prems(1) and vv = Suc.prems(2) and pre = Suc.prems(3)
  from Suc.hyps(2) have lt: "idx < length (h ! vals)" by simp
  let ?v = "h ! vals ! idx"
  let ?asg1 = "setitem variable (length h) asg"
  from lt have "?v \<in> set (h ! vals)" by simp
  with pre have cl: "consistent_loop c h variable ?v asg = Inr True" by blast
  from lt have d: "drop idx (h ! vals) = ?v # drop (idx + 1) (h ! vals)"
    by (simp add: Cons_nth_drop_Suc)
  have nxt: "backtrack_at c (Loop variable vals (idx + 1)) ?asg1 (hA[length h := []])
      = tried_in_order c variable (drop (idx + 1) (h ! vals)) ?asg1 (hA[length h := []])"
    if att: "try_candidate c variable ?v asg h = Some (Inr (res, hA))" for res hA
  proof -
    note st = after_failed_candidate[OF try_candidate_keeps[OF att] valid vv pre]
    from Suc.hyps(2) have n: "n = length (hA[length h := []] ! vals) - (idx + 1)"
      by (simp add: st(1))
    from Suc.hyps(1)[OF n st(2) st(3) st(4)] show ?thesis by (simp only: st(1))
  qed
  show ?case
  proof (cases "try_candidate c variable ?v asg h")
    case None
    then show ?thesis unfolding backtrack_at_Loop_try[OF lt cl] d by simp
  next
    case (Some att)
    show ?thesis
    proof (cases att)
      case (Inl e)
      with Some show ?thesis unfolding backtrack_at_Loop_try[OF lt cl] d by simp
    next
      case (Inr p)
      obtain res hA where p: "p = (res, hA)" by (cases p)
      from Some Inr p have att: "try_candidate c variable ?v asg h = Some (Inr (res, hA))" by simp
      from att nxt[OF att] show ?thesis unfolding backtrack_at_Loop_try[OF lt cl] d by simp
    qed
  qed
qed

text \<open>
  C4, as the code has it. \<open>backtrack\<close> reads the candidates by index from the list object
  that was the domain of the selected variable on entry. A candidate \<open>v\<close> that passes the
  consistency pre-check is bound as \<open>assignment[variable] = [v]\<close>, a new list; when it
  fails (AC-3 wipeout or failed recursion), \<open>assignment[variable].remove(v)\<close> removes it
  from that one-element list, not from the original list, and the candidate at the next
  index is tried. So when every candidate passes the pre-check, the call does what
  \<open>tried_in_order\<close> does on the candidates of the original list: it tries each of them in
  the stored order until one yields a solution, with the same result, frame and heap, and
  it returns exactly when that does. When it returns \<open>False\<close>, the original list holds
  what it held on entry, and the list of the variable in the frame is empty.
\<close>

theorem backtrack_exhaustion:
  assumes "distinct (map fst asg)" and "\<forall>r \<in> snd ` set asg. r < length h"
    and "select_unassigned_variable asg h = Some variable"
    and "map_of asg variable = Some vals"
    and "\<forall>v \<in> set (h ! vals). consistent_loop c h variable v asg = Inr True"
  shows "backtrack c asg h = tried_in_order c variable (h ! vals) asg h \<and>
    (\<forall>asg' h'. backtrack c asg h = Some (Inr (Failure, asg', h')) \<longrightarrow>
       h' ! vals = h ! vals \<and> (\<exists>r. map_of asg' variable = Some r \<and> h' ! r = []))"
proof -
  from assms(3) obtain r0 where "find (\<lambda>(variable, r). length (h ! r) > 1) asg = Some (variable, r0)"
    by (auto simp: select_unassigned_variable_def)
  from find_Some_mem[OF this] have "(variable, r0) \<in> set asg" and "1 < length (h ! r0)" by simp_all
  with assms(1,4) have long: "1 < length (h ! vals)" by simp
  have "\<not> finished asg h"
  proof
    assume "finished asg h"
    with map_of_SomeD[OF assms(4)] have "length (h ! vals) = 1"
      by (auto simp: finished_def list_all_iff)
    with long show False by simp
  qed
  with assms(3,4)
  have loop: "backtrack c asg h = backtrack_at c (Loop variable vals 0) asg h"
    by (simp add: backtrack_def backtrack_at_Entry getitem_def)
  from assms(4) have "vals \<in> snd ` set asg" by (rule map_of_snd_mem)
  with assms(2) have vv: "vals < length h" by blast
  from long have ne: "h ! vals \<noteq> []" by (cases "h ! vals") simp_all
  from backtrack_loop_in_order[OF assms(2) vv assms(5), of 0]
  have c1: "backtrack c asg h = tried_in_order c variable (h ! vals) asg h"
    by (simp add: loop)
  have c2: "h' ! vals = h ! vals \<and> (\<exists>r. map_of asg' variable = Some r \<and> h' ! r = [])"
    if "backtrack c asg h = Some (Inr (Failure, asg', h'))" for asg' h'
  proof -
    from that have "backtrack_at c (Loop variable vals 0) asg h = Some (Inr (Failure, asg', h'))"
      by (simp only: loop)
    from backtrack_loop_exhausts[OF this assms(2) vv assms(5)] ne show ?thesis by simp
  qed
  from c1 c2 show ?thesis by blast
qed

lemma pigeon_entry:
  "deepcopy (domains pigeon_csp) pigeon_heap =
     ([(''a'', 3), (''b'', 4), (''c'', 5)], [[1, 2], [1, 2], [1, 2], [1, 2], [1, 2], [1, 2]]) \<and>
   inference pigeon_csp [(''a'', 3), (''b'', 4), (''c'', 5)] (get_all_arcs pigeon_csp)
       [[1, 2], [1, 2], [1, 2], [1, 2], [1, 2], [1, 2]]
     = Some (Inr (True, [[1, 2], [1, 2], [1, 2], [1, 2], [1, 2], [1, 2]]))"
  by (simp add: eval_simps pigeon_csp_def pigeon_heap_def)

lemma pigeon_backtrack:
  "backtrack pigeon_csp [(''a'', 3), (''b'', 4), (''c'', 5)]
     [[1, 2], [1, 2], [1, 2], [1, 2], [1, 2], [1, 2]] =
   Some (Inr (Failure, [(''a'', 10), (''b'', 4), (''c'', 5)],
        [[1, 2], [1, 2], [1, 2], [1, 2], [1, 2], [1, 2], [], [1], [2], [],
         [], [2], [1], []]))"
  by (simp add: eval_simps pigeon_csp_def)

text \<open>
  The instance \<open>a\<close> in \<open>[1, 2]\<close>, \<open>b\<close> in \<open>[1]\<close> with \<open>a = 2\<close> declared from \<open>b\<close> to
  \<open>a\<close>: \<open>backtracking_search\<close> calls \<open>backtrack\<close> with the lists at 2 and 3 of the heap.
  The candidate \<open>1\<close> of \<open>a\<close> fails in AC-3, the candidate \<open>2\<close> is tried next and gives
  the solution.
\<close>

lemma retry_entry:
  "deepcopy (domains retry_csp) retry_heap =
     ([(''a'', 2), (''b'', 3)], [[1, 2], [1], [1, 2], [1]]) \<and>
   inference retry_csp [(''a'', 2), (''b'', 3)] (get_all_arcs retry_csp)
       [[1, 2], [1], [1, 2], [1]]
     = Some (Inr (True, [[1, 2], [1], [1, 2], [1]]))"
  by (simp add: eval_simps retry_csp_def retry_heap_def)

lemma retry_backtrack:
  "backtrack retry_csp [(''a'', 2), (''b'', 3)] [[1, 2], [1], [1, 2], [1]] =
   Some (Inr (Solution [(''a'', 8), (''b'', 9)], [(''a'', 7), (''b'', 3)],
        [[1, 2], [1], [1, 2], [1], [], [1], [], [2], [2], [1]]))"
  by (simp add: eval_simps retry_csp_def)

theorem backtrack_exhaustion_witness:
  "backtrack pigeon_csp [(''a'', 3), (''b'', 4), (''c'', 5)]
     [[1, 2], [1, 2], [1, 2], [1, 2], [1, 2], [1, 2]] =
   Some (Inr (Failure, [(''a'', 10), (''b'', 4), (''c'', 5)],
        [[1, 2], [1, 2], [1, 2], [1, 2], [1, 2], [1, 2], [], [1], [2], [],
         [], [2], [1], []])) \<and>
   tried_in_order pigeon_csp ''a'' [1, 2] [(''a'', 3), (''b'', 4), (''c'', 5)]
     [[1, 2], [1, 2], [1, 2], [1, 2], [1, 2], [1, 2]] =
   Some (Inr (Failure, [(''a'', 10), (''b'', 4), (''c'', 5)],
        [[1, 2], [1, 2], [1, 2], [1, 2], [1, 2], [1, 2], [], [1], [2], [],
         [], [2], [1], []])) \<and>
   select_unassigned_variable [(''a'', 3), (''b'', 4), (''c'', 5)]
     [[1, 2], [1, 2], [1, 2], [1, 2], [1, 2], [1, 2 :: int]] = Some ''a'' \<and>
   (\<exists>r. map_of [(''a'', 10 :: nat), (''b'', 4), (''c'', 5)] ''a'' = Some r \<and>
        [[1, 2], [1, 2], [1, 2], [1, 2], [1, 2], [1, 2], [], [1], [2], [],
         [], [2], [1], [] :: int list] ! r = []) \<and>
   backtrack retry_csp [(''a'', 2), (''b'', 3)] [[1, 2], [1], [1, 2], [1]] =
   Some (Inr (Solution [(''a'', 8), (''b'', 9)], [(''a'', 7), (''b'', 3)],
        [[1, 2], [1], [1, 2], [1], [], [1], [], [2], [2], [1]])) \<and>
   tried_in_order retry_csp ''a'' [1, 2] [(''a'', 2), (''b'', 3)] [[1, 2], [1], [1, 2], [1]] =
   Some (Inr (Solution [(''a'', 8), (''b'', 9)], [(''a'', 7), (''b'', 3)],
        [[1, 2], [1], [1, 2], [1], [], [1], [], [2], [2], [1]]))"
proof -
  let ?A = "[(''a'', 3 :: nat), (''b'', 4), (''c'', 5)]"
  let ?H = "[[1, 2], [1, 2], [1, 2], [1, 2], [1, 2], [1, 2 :: int]]"
  have d: "distinct (map fst ?A)" by simp
  have v: "\<forall>r \<in> snd ` set ?A. r < length ?H" by simp
  have s: "select_unassigned_variable ?A ?H = Some ''a''"
    by (simp add: select_unassigned_variable_def)
  have m: "map_of ?A ''a'' = Some 3" by simp
  have p: "\<forall>v \<in> set (?H ! 3). consistent_loop pigeon_csp ?H ''a'' v ?A = Inr True"
    by (simp add: pigeon_csp_def getitem_def get_all_possible_pairs_def)
  let ?B = "[(''a'', 2 :: nat), (''b'', 3)]"
  let ?G = "[[1, 2], [1], [1, 2], [1 :: int]]"
  have d': "distinct (map fst ?B)" by simp
  have v': "\<forall>r \<in> snd ` set ?B. r < length ?G" by simp
  have s': "select_unassigned_variable ?B ?G = Some ''a''"
    by (simp add: select_unassigned_variable_def)
  have m': "map_of ?B ''a'' = Some 2" by simp
  have p': "\<forall>v \<in> set (?G ! 2). consistent_loop retry_csp ?G ''a'' v ?B = Inr True"
    by (simp add: retry_csp_def getitem_def get_all_possible_pairs_def)
  from backtrack_exhaustion[OF d v s m p] pigeon_backtrack
  have pigeon: "tried_in_order pigeon_csp ''a'' [1, 2] ?A ?H =
      Some (Inr (Failure, [(''a'', 10), (''b'', 4), (''c'', 5)],
        [[1, 2], [1, 2], [1, 2], [1, 2], [1, 2], [1, 2], [], [1], [2], [],
         [], [2], [1], []]))"
    and empty: "\<exists>r. map_of [(''a'', 10 :: nat), (''b'', 4), (''c'', 5)] ''a'' = Some r \<and>
        [[1, 2], [1, 2], [1, 2], [1, 2], [1, 2], [1, 2], [], [1], [2], [],
         [], [2], [1], [] :: int list] ! r = []"
    by simp_all
  from backtrack_exhaustion[OF d' v' s' m' p'] retry_backtrack
  have retry: "tried_in_order retry_csp ''a'' [1, 2] ?B ?G =
      Some (Inr (Solution [(''a'', 8), (''b'', 9)], [(''a'', 7), (''b'', 3)],
        [[1, 2], [1], [1, 2], [1], [], [1], [], [2], [2], [1]]))"
    by simp
  from pigeon empty retry pigeon_backtrack retry_backtrack s show ?thesis
    by (simp only: simp_thms)
qed

text \<open>
  The claim C4 says that a failed candidate is removed from the original domain list. On
  the pigeon instance, \<open>backtracking_search\<close> calls \<open>backtrack\<close> with the lists at 3, 4
  and 5 of the heap:
  both candidates of \<open>a\<close> pass the pre-check and fail, the call returns \<open>False\<close> with the
  list of \<open>a\<close> in the frame at 10 and empty, and the original list at 3 still holds both
  values.
\<close>

theorem backtrack_keeps_original_list:
  "backtrack pigeon_csp [(''a'', 3), (''b'', 4), (''c'', 5)]
     [[1, 2], [1, 2], [1, 2], [1, 2], [1, 2], [1, 2]] =
   Some (Inr (Failure, [(''a'', 10), (''b'', 4), (''c'', 5)],
        [[1, 2], [1, 2], [1, 2], [1, 2], [1, 2], [1, 2], [], [1], [2], [],
         [], [2], [1], []])) \<and>
   [[1, 2], [1, 2], [1, 2], [1, 2], [1, 2], [1, 2], [], [1], [2], [],
         [], [2], [1], [] :: int list] ! 3 = [1, 2]"
  by (simp add: eval_simps pigeon_csp_def)

text \<open>
  The statement above leaves out the candidates that fail the pre-check. When one does
  while \<open>assignment[variable]\<close> is still the list being iterated, it is removed from that
  list and the iterator skips the next candidate. On the instance \<open>a\<close> in \<open>[1, 2, 3]\<close>,
  \<open>b\<close> in \<open>[3]\<close>, \<open>a = b\<close>, the first \<open>inference\<close> leaves \<open>[2, 3]\<close> for \<open>a\<close>;
  \<open>backtrack\<close> rejects \<open>2\<close>, never tries \<open>3\<close> and returns \<open>False\<close> with \<open>[3]\<close> left
  for \<open>a\<close>, and on the frame as it left it, \<open>backtrack\<close> returns the solution.
\<close>

lemma backtrack_skips_candidate:
  "backtracking_search skip_csp skip_heap = Some (Inr (Failure, [[1, 2, 3], [3], [3], [3]])) \<and>
   backtrack skip_csp [(''a'', 2), (''b'', 3)] [[1, 2, 3], [3], [2, 3], [3]]
     = Some (Inr (Failure, [(''a'', 2), (''b'', 3)], [[1, 2, 3], [3], [3], [3]])) \<and>
   backtrack skip_csp [(''a'', 2), (''b'', 3)] [[1, 2, 3], [3], [3], [3]]
     = Some (Inr (Solution [(''a'', 2), (''b'', 3)], [(''a'', 2), (''b'', 3)],
                  [[1, 2, 3], [3], [3], [3]]))"
  by (simp add: eval_simps skip_csp_def skip_heap_def)

section \<open>Search without constraints\<close>

lemma contents_append:
  assumes "\<forall>r \<in> snd ` set d. r < length h"
  shows "contents (h @ ext) d = contents h d"
  using assms by (induction d) (auto simp: contents_def nth_append)

lemma contents_extend:
  assumes "take (length h) h' = h" and "\<forall>r \<in> snd ` set d. r < length h"
  shows "contents h' d = contents h d"
proof -
  have "h' = h @ drop (length h) h'"
    using assms(1) by (metis append_take_drop_id)
  then show ?thesis using contents_append[OF assms(2)] by metis
qed

lemma deepcopy_items_contents:
  assumes "deepcopy_items memo d h = (d', h')"
    and "\<forall>r \<in> snd ` set d. r < length h"
    and "\<forall>(r, r') \<in> set memo. r < length h \<and> r' < length h \<and> h ! r' = h ! r"
  shows "contents h' d' = contents h d"
  using assms
proof (induction d arbitrary: memo h d' h')
  case Nil
  then show ?case by (simp add: contents_def)
next
  case (Cons kr d)
  obtain k r where kr: "kr = (k, r)" by (cases kr)
  from Cons.prems(2) have r: "r < length h" and dv: "\<forall>r \<in> snd ` set d. r < length h"
    by (simp_all add: kr)
  show ?case
  proof (cases "map_of memo r")
    case (Some r')
    obtain d1 h1 where rec: "deepcopy_items memo d h = (d1, h1)"
      by (cases "deepcopy_items memo d h")
    with Cons.prems(1) Some have d': "d' = (k, r') # d1" and h': "h' = h1"
      by (simp_all add: kr)
    from Some have "(r, r') \<in> set memo" by (rule map_of_SomeD)
    with Cons.prems(3) have r': "r' < length h" and eq: "h ! r' = h ! r" by auto
    have "\<forall>r' \<in> snd ` set memo. r' < length h" using Cons.prems(3) by force
    from deepcopy_items_frame[OF rec this] have "take (length h) h1 = h" by simp
    then have "h1 ! r' = h ! r'" using r' by (rule take_nth_eq)
    with eq Cons.IH[OF rec dv Cons.prems(3)] show ?thesis
      by (simp add: d' h' kr contents_def)
  next
    case None
    let ?memo = "(r, length h) # memo" and ?h = "h @ [h ! r]"
    obtain d1 h1 where rec: "deepcopy_items ?memo d ?h = (d1, h1)"
      by (cases "deepcopy_items ?memo d ?h")
    with Cons.prems(1) None have d': "d' = (k, length h) # d1" and h': "h' = h1"
      by (simp_all add: kr)
    have dv': "\<forall>r \<in> snd ` set d. r < length ?h" using dv by auto
    have memo': "\<forall>(a, a') \<in> set ?memo. a < length ?h \<and> a' < length ?h \<and> ?h ! a' = ?h ! a"
      using Cons.prems(3) r by (auto simp: nth_append)
    have "\<forall>r' \<in> snd ` set ?memo. r' < length ?h" using memo' by force
    from deepcopy_items_frame[OF rec this] have "take (length ?h) h1 = ?h" by simp
    then have "h1 ! length h = ?h ! length h" by (rule take_nth_eq) simp
    then have cell: "h1 ! length h = h ! r" by simp
    have "contents h1 d1 = contents ?h d" by (rule Cons.IH[OF rec dv' memo'])
    also have "\<dots> = contents h d" by (rule contents_append[OF dv])
    finally show ?thesis using cell by (simp add: d' h' kr contents_def)
  qed
qed

lemma deepcopy_contents:
  assumes "deepcopy d h = (d', h')" and "\<forall>r \<in> snd ` set d. r < length h"
  shows "contents h' d' = contents h d"
  using assms by (intro deepcopy_items_contents[where memo = "[]"]) (simp_all add: deepcopy_def)

lemma get_all_arcs_free:
  assumes "\<forall>(k, m) \<in> set (constraints c). m = []"
  shows "get_all_arcs c = []"
  using assms unfolding get_all_arcs_def by (induction "constraints c") auto

lemma consistent_loop_free:
  assumes "map_of (constraints c) variable = Some []"
  shows "consistent_loop c h variable v d = Inr True"
  by (induction d) (auto simp: getitem_def assms)

lemma contents_keys: "map fst (contents h d) = map fst d"
  by (induction d) (auto simp: contents_def)

lemma contents_mem: "(k, r) \<in> set d \<Longrightarrow> (k, h ! r) \<in> set (contents h d)"
  by (force simp: contents_def)

lemma rebind_absent:
  assumes "k \<notin> fst ` set ys"
  shows "map (\<lambda>(k', zs). if k' = k then (k', xs) else (k', zs)) ys = ys"
  using assms by (induction ys) auto

lemma contents_setitem:
  assumes "distinct (map fst asg)" and "(k, r0) \<in> set asg" and "\<forall>r \<in> snd ` set asg. r < length h"
  shows "contents (h @ [xs]) (setitem k (length h) asg) =
     map (\<lambda>(k', zs). if k' = k then (k', xs) else (k', zs)) (contents h asg)"
  using assms
proof (induction asg)
  case Nil
  then show ?case by simp
next
  case (Cons a asg)
  obtain k' r where a: "a = (k', r)" by (cases a)
  from Cons.prems(3) have r: "r < length h" and rest: "\<forall>r \<in> snd ` set asg. r < length h"
    by (simp_all add: a)
  show ?case
  proof (cases "k' = k")
    case True
    with Cons.prems(1) have "k \<notin> fst ` set asg" by (simp add: a)
    then have "k \<notin> fst ` set (contents h asg)"
      using contents_keys[of h asg] by (metis set_map)
    from rebind_absent[OF this] contents_append[OF rest, of "[xs]"] True show ?thesis
      by (simp add: a contents_def)
  next
    case False
    with Cons.prems(2) have "(k, r0) \<in> set asg" by (simp add: a)
    from Cons.IH[OF _ this rest] Cons.prems(1) False r show ?thesis
      by (simp add: a contents_def nth_append)
  qed
qed

lemma rebind_size:
  assumes "distinct (map fst ys)" and "(k, xs0) \<in> set ys"
  shows "sum_list (map (length \<circ> snd) (map (\<lambda>(k', zs). if k' = k then (k', xs) else (k', zs)) ys))
           + length xs0 = sum_list (map (length \<circ> snd) ys) + length xs"
  using assms
proof (induction ys)
  case Nil
  then show ?case by simp
next
  case (Cons a ys)
  obtain k' zs where a: "a = (k', zs)" by (cases a)
  show ?case
  proof (cases "k' = k")
    case True
    with Cons.prems(1) have absent: "k \<notin> fst ` set ys" by (simp add: a)
    with Cons.prems(2) True have "zs = xs0" by (force simp: a)
    with rebind_absent[OF absent] True show ?thesis by (simp add: a)
  next
    case False
    with Cons.prems(2) have "(k, xs0) \<in> set ys" by (simp add: a)
    from Cons.IH[OF _ this] Cons.prems(1) False show ?thesis by (simp add: a)
  qed
qed

lemma rebind_first_value:
  assumes "distinct (map fst ys)" and "(k, xs0) \<in> set ys"
  shows "map (\<lambda>(k', zs). (k', [hd zs])) (map (\<lambda>(k', zs). if k' = k then (k', [hd xs0]) else (k', zs)) ys)
       = map (\<lambda>(k', zs). (k', [hd zs])) ys"
proof -
  have "\<forall>(k', zs) \<in> set ys. k' = k \<longrightarrow> zs = xs0"
    using assms by (auto dest: eq_key_imp_eq_value)
  then show ?thesis by (auto simp: map_idI)
qed

lemma select_unfinished:
  assumes "\<not> finished asg h" and "\<forall>(k, xs) \<in> set (contents h asg). xs \<noteq> []"
  shows "\<exists>variable r0. select_unassigned_variable asg h = Some variable \<and>
           (variable, r0) \<in> set asg \<and> 1 < length (h ! r0)"
proof (cases "find (\<lambda>(variable, r). length (h ! r) > 1) asg")
  case None
  then have small: "\<forall>(k, r) \<in> set asg. \<not> 1 < length (h ! r)"
    by (auto simp: find_None_iff)
  have "\<forall>(k, r) \<in> set asg. length (h ! r) = 1"
  proof (clarify)
    fix k r assume m: "(k, r) \<in> set asg"
    with small have "\<not> 1 < length (h ! r)" by auto
    moreover from contents_mem[OF m] assms(2) have "h ! r \<noteq> []" by auto
    ultimately show "length (h ! r) = 1" by (cases "h ! r") auto
  qed
  then have "finished asg h" by (auto simp: finished_def list_all_iff)
  with assms(1) show ?thesis by simp
next
  case (Some p)
  obtain variable r0 where p: "p = (variable, r0)" by (cases p)
  from find_Some_mem[OF Some] have "(variable, r0) \<in> set asg" and "1 < length (h ! r0)"
    by (simp_all add: p)
  with Some p show ?thesis by (auto simp: select_unassigned_variable_def)
qed

lemma backtrack_free:
  assumes "get_all_arcs c = []"
    and "\<forall>k \<in> fst ` set asg. map_of (constraints c) k = Some []"
    and "asg \<noteq> []" and "distinct (map fst asg)"
    and "\<forall>r \<in> snd ` set asg. r < length h"
    and "\<forall>(k, xs) \<in> set (contents h asg). xs \<noteq> []"
  shows "\<exists>res frame h'. backtrack_at c Entry asg h = Some (Inr (Solution res, frame, h')) \<and>
           contents h' res = map (\<lambda>(k, xs). (k, [hd xs])) (contents h asg)"
  using assms(2-)
proof (induction "sum_list (map (length \<circ> snd) (contents h asg))" arbitrary: asg h rule: less_induct)
  case less
  note cons = less.prems(1) and ne = less.prems(2) and dist = less.prems(3)
    and valid = less.prems(4) and full = less.prems(5)
  show ?case
  proof (cases "finished asg h")
    case True
    then have "\<forall>(k, xs) \<in> set (contents h asg). length xs = 1"
      by (auto simp: finished_def list_all_iff contents_def)
    then have one: "\<And>k xs. (k, xs) \<in> set (contents h asg) \<Longrightarrow> (k, [hd xs]) = (k, xs)"
    proof -
      fix k xs assume "(k, xs) \<in> set (contents h asg)"
        and "\<forall>(k, xs) \<in> set (contents h asg). length xs = 1"
      then have "length xs = 1" by auto
      then show "(k, [hd xs]) = (k, xs)" by (cases xs) auto
    qed
    have "map (\<lambda>(k, xs). (k, [hd xs])) (contents h asg) = contents h asg"
    proof (rule map_idI)
      fix p assume m: "p \<in> set (contents h asg)"
      obtain k xs where p: "p = (k, xs)" by (cases p)
      from one[OF m[unfolded p]] show "(case p of (k, xs) \<Rightarrow> (k, [hd xs])) = p"
        by (simp add: p)
    qed
    with True show ?thesis by (simp add: backtrack_at_Entry)
  next
    case False
    from select_unfinished[OF False full] obtain variable r0 where
      sel: "select_unassigned_variable asg h = Some variable"
      and mem: "(variable, r0) \<in> set asg" and long: "1 < length (h ! r0)" by blast
    from dist mem have get: "getitem asg variable = Inr r0"
      by (simp add: getitem_def)
    let ?v = "h ! r0 ! 0"
    let ?asg1 = "setitem variable (length h) asg"
    let ?h1 = "h @ [[?v]]"
    have v: "?v = hd (h ! r0)" using long by (cases "h ! r0") auto
    from mem have key: "variable \<in> fst ` set asg" by force
    with cons have "map_of (constraints c) variable = Some []" by blast
    then have cl: "consistent_loop c h variable ?v asg = Inr True"
      by (rule consistent_loop_free)
    obtain assignmentCopy h2 where dc: "deepcopy ?asg1 ?h1 = (assignmentCopy, h2)"
      by (cases "deepcopy ?asg1 ?h1")
    have valid1: "\<forall>r \<in> snd ` set ?asg1. r < length ?h1"
    proof
      fix r assume "r \<in> snd ` set ?asg1"
      with setitem_refs[of variable "length h" asg]
      have "r \<in> insert (length h) (snd ` set asg)" by (rule subsetD)
      with valid show "r < length ?h1" by auto
    qed
    have keys1: "map fst ?asg1 = map fst asg" using key by (rule setitem_keys)
    have c1: "contents ?h1 ?asg1 =
        map (\<lambda>(k', zs). if k' = variable then (k', [?v]) else (k', zs)) (contents h asg)"
      by (rule contents_setitem[OF dist mem valid])
    have cc: "contents h2 assignmentCopy = contents ?h1 ?asg1"
      by (rule deepcopy_contents[OF dc valid1])
    have keysc: "map fst assignmentCopy = map fst asg"
      using deepcopy_frame(3)[OF dc] keys1 by simp
    have cdist: "distinct (map fst (contents h asg))" using dist by (simp add: contents_keys)
    have cmem: "(variable, h ! r0) \<in> set (contents h asg)" by (rule contents_mem[OF mem])
    \<comment> \<open>the copy is smaller\<close>
    from rebind_size[OF cdist cmem, of "[?v]"] long
    have smaller: "sum_list (map (length \<circ> snd) (contents h2 assignmentCopy))
        < sum_list (map (length \<circ> snd) (contents h asg))"
      by (simp add: cc c1)
    have cons': "\<forall>k \<in> fst ` set assignmentCopy. map_of (constraints c) k = Some []"
      using cons keysc by (metis set_map)
    have ne': "assignmentCopy \<noteq> []" using ne keysc by (metis map_is_Nil_conv)
    have dist': "distinct (map fst assignmentCopy)" using dist keysc by simp
    have valid': "\<forall>r \<in> snd ` set assignmentCopy. r < length h2"
      using deepcopy_frame(4)[OF dc] by blast
    have full': "\<forall>(k, xs) \<in> set (contents h2 assignmentCopy). xs \<noteq> []"
      using full by (auto simp: cc c1 split: if_splits)
    from less.hyps[OF smaller cons' ne' dist' valid' full'] obtain res frame h4 where
      rec: "backtrack_at c Entry assignmentCopy h2 = Some (Inr (Solution res, frame, h4))"
      and rc: "contents h4 res = map (\<lambda>(k, xs). (k, [hd xs])) (contents h2 assignmentCopy)"
      by blast
    have "res \<noteq> []"
    proof
      assume "res = []"
      with rc have "contents h2 assignmentCopy = []" by (simp add: contents_def)
      then have "map fst (contents h2 assignmentCopy) = []" by simp
      with ne' show False by (simp add: contents_keys)
    qed
    then have tr: "truthy (Solution res)" by (simp add: truthy_def)
    have inf: "inference c assignmentCopy (get_all_arcs c) h2 = Some (Inr (True, h2))"
      by (simp add: assms(1) inference_Nil)
    have loop: "backtrack_at c (Loop variable r0 0) asg h = Some (Inr (Solution res, ?asg1, h4))"
    proof -
      from long have "h ! r0 \<noteq> []" by (cases "h ! r0") simp_all
      then show ?thesis using cl dc inf rec tr by (subst backtrack_at_Loop) simp
    qed
    from False sel get loop
    have "backtrack_at c Entry asg h = Some (Inr (Solution res, ?asg1, h4))"
      by (subst backtrack_at_Entry) simp
    moreover have "contents h4 res = map (\<lambda>(k, xs). (k, [hd xs])) (contents h asg)"
    proof -
      have "contents h4 res = map (\<lambda>(k, xs). (k, [hd xs])) (contents h2 assignmentCopy)"
        by (rule rc)
      also have "\<dots> = map (\<lambda>(k, xs). (k, [hd xs]))
          (map (\<lambda>(k', zs). if k' = variable then (k', [?v]) else (k', zs))
             (contents h asg))"
        by (simp only: cc c1)
      also have "\<dots> = map (\<lambda>(k, xs). (k, [hd xs]))
          (map (\<lambda>(k', zs). if k' = variable then (k', [hd (h ! r0)]) else (k', zs))
             (contents h asg))"
        by (simp only: v)
      also have "\<dots> = map (\<lambda>(k, xs). (k, [hd xs])) (contents h asg)"
        by (rule rebind_first_value[OF cdist cmem])
      finally show ?thesis .
    qed
    ultimately show ?thesis by blast
  qed
qed

text \<open>
  C9: on a CSP with at least one variable, non-empty initial domains and no declared
  constraint, \<open>backtracking_search\<close> returns an assignment, and the list of every variable
  in it is the one-element list of the first value of the variable's initial domain. The
  instance is as \<open>add_variable\<close> leaves it: the keys of \<open>self.domains\<close> are distinct and
  their lists allocated, every dictionary in \<open>self.constraints\<close> is empty, and every
  variable has its entry in \<open>self.constraints\<close>.
\<close>

theorem backtracking_search_no_constraints:
  assumes "domains c \<noteq> []" and "distinct (map fst (domains c))"
    and "\<forall>(k, r) \<in> set (domains c). r < length h \<and> h ! r \<noteq> []"
    and "\<forall>(k, m) \<in> set (constraints c). m = []"
    and "fst ` set (domains c) \<subseteq> fst ` set (constraints c)"
  shows "\<exists>asg h'. backtracking_search c h = Some (Inr (Solution asg, h')) \<and>
           contents h' asg = map (\<lambda>(k, r). (k, [hd (h ! r)])) (domains c)"
proof -
  obtain asg h1 where dc: "deepcopy (domains c) h = (asg, h1)"
    by (cases "deepcopy (domains c) h")
  have arcs: "get_all_arcs c = []" using assms(4) by (rule get_all_arcs_free)
  have valid0: "\<forall>r \<in> snd ` set (domains c). r < length h" using assms(3) by auto
  have cc: "contents h1 asg = contents h (domains c)" by (rule deepcopy_contents[OF dc valid0])
  have keys: "map fst asg = map fst (domains c)" by (rule deepcopy_frame(3)[OF dc])
  have cons: "\<forall>k \<in> fst ` set asg. map_of (constraints c) k = Some []"
  proof
    fix k assume "k \<in> fst ` set asg"
    then have "k \<in> fst ` set (domains c)" using keys by (metis set_map)
    with assms(5) have "k \<in> fst ` set (constraints c)" by blast
    then obtain m where "map_of (constraints c) k = Some m"
      by (metis not_None_eq map_of_eq_None_iff)
    moreover from this have "(k, m) \<in> set (constraints c)" by (rule map_of_SomeD)
    with assms(4) have "m = []" by auto
    ultimately show "map_of (constraints c) k = Some []" by simp
  qed
  have ne: "asg \<noteq> []" using assms(1) keys by (metis map_is_Nil_conv)
  have dist: "distinct (map fst asg)" using assms(2) keys by simp
  have valid: "\<forall>r \<in> snd ` set asg. r < length h1" using deepcopy_frame(4)[OF dc] by blast
  have full: "\<forall>(k, xs) \<in> set (contents h1 asg). xs \<noteq> []"
    unfolding cc using assms(3) by (auto simp: contents_def)
  from backtrack_free[OF arcs cons ne dist valid full] obtain res frame h' where
    bt: "backtrack_at c Entry asg h1 = Some (Inr (Solution res, frame, h'))"
    and rc: "contents h' res = map (\<lambda>(k, xs). (k, [hd xs])) (contents h1 asg)" by blast
  have "backtracking_search c h = Some (Inr (Solution res, h'))"
    by (simp add: backtracking_search_unfold dc arcs inference_Nil backtrack_def bt)
  moreover have "contents h' res = map (\<lambda>(k, r). (k, [hd (h ! r)])) (domains c)"
    unfolding rc cc by (simp add: contents_def case_prod_unfold comp_def)
  ultimately show ?thesis by blast
qed

theorem backtracking_search_no_constraints_witness:
  "\<exists>asg h'. backtracking_search free_csp free_heap = Some (Inr (Solution asg, h')) \<and>
      contents h' asg = [(''a'', [1]), (''b'', [3])]"
proof -
  have "domains free_csp \<noteq> []" and "distinct (map fst (domains free_csp))"
    and "\<forall>(k, r) \<in> set (domains free_csp). r < length free_heap \<and> free_heap ! r \<noteq> []"
    and "\<forall>(k, m) \<in> set (constraints free_csp). m = []"
    and "fst ` set (domains free_csp) \<subseteq> fst ` set (constraints free_csp)"
    by (simp_all add: free_csp_def free_heap_def)
  from backtracking_search_no_constraints[OF this] show ?thesis
    by (simp add: free_csp_def free_heap_def)
qed

end
